theory Spec2Isabelle
  imports Complex_Main "HOL-Library.Log_Nat" "HOL-Library.Multiset"
begin

unbundle bit_operations_syntax

section \<open>Machine arithmetic of Rand.cpp\<close>

subsection \<open>The integer types \<open>long\<close> and \<open>int\<close>\<close>

text \<open>
  Every integer variable of the generators is a C++ \<open>long\<close>; \<open>Perm\<close> works on \<open>int\<close>.
  A \<open>long\<close> is modelled as a mathematical integer that is brought back into the 64-bit
  two's-complement range after each arithmetic operation (the LP64 data model), an
  \<open>int\<close> likewise with 32 bits.  C++ leaves signed overflow undefined; the wrap-around
  is what the hardware does.  The theorems that bound their inputs stay clear of it,
  and the evaluations that depend on it (\<open>Perm\<close> at \<open>len = INT_MIN\<close>, and the first seeds
  beyond the ranges of the claim on the values drawn) say so.
\<close>

definition wrap :: "nat \<Rightarrow> int \<Rightarrow> int" where
  "wrap w x = (x + 2 ^ (w - 1)) mod 2 ^ w - 2 ^ (w - 1)"

type_synonym long = int

definition ladd :: "long \<Rightarrow> long \<Rightarrow> long" where
  "ladd a b = wrap 64 (a + b)"

definition lsub :: "long \<Rightarrow> long \<Rightarrow> long" where
  "lsub a b = wrap 64 (a - b)"

definition lmul :: "long \<Rightarrow> long \<Rightarrow> long" where
  "lmul a b = wrap 64 (a * b)"

definition lneg :: "long \<Rightarrow> long" where
  "lneg a = wrap 64 (- a)"

text \<open>C++ division truncates towards zero and the remainder takes the sign of the
  dividend; HOL's \<open>div\<close> and \<open>mod\<close> round downwards.\<close>

definition ldiv :: "long \<Rightarrow> long \<Rightarrow> long" where
  "ldiv a b = wrap 64 (sgn a * sgn b * (\<bar>a\<bar> div \<bar>b\<bar>))"

definition lrem :: "long \<Rightarrow> long \<Rightarrow> long" where
  "lrem a b = sgn a * (\<bar>a\<bar> mod \<bar>b\<bar>)"

text \<open>\<open>a >> n\<close> on a signed value is the arithmetic shift, \<open>a << n\<close> multiplies by
  \<open>2 ^ n\<close>, \<open>a & b\<close> works on the two's-complement bits.\<close>

definition lshr :: "long \<Rightarrow> nat \<Rightarrow> long" where
  "lshr a n = drop_bit n a"

definition lshl :: "long \<Rightarrow> nat \<Rightarrow> long" where
  "lshl a n = wrap 64 (push_bit n a)"

definition land :: "long \<Rightarrow> long \<Rightarrow> long" where
  "land a b = a AND b"

text \<open>The macro \<open>ABS( x ) ((x) > 0 ? (x) : -(x))\<close>, as Rand.cpp defines it where no
  header has defined it before.\<close>

definition ABS :: "long \<Rightarrow> long" where
  "ABS x = (if x > 0 then x else lneg x)"

subsection \<open>Floating point: \<open>double\<close> and \<open>float\<close>\<close>

text \<open>
  A floating-point number is a mantissa and a binary exponent; its value is
  \<open>mant * 2 ^ expo\<close>.  \<open>double\<close> keeps 53 significant bits, \<open>float\<close> 24; every operation
  rounds its exact result to the nearest representable number, ties to the even
  mantissa (IEEE 754, the default rounding mode), and each operation is carried out
  in the precision of its own type.  All magnitudes that occur in Rand.cpp lie between
  \<open>2 ^ -40\<close> and \<open>2 ^ 64\<close> or are zero, so exponent overflow, subnormal numbers,
  infinities and NaN are not part of the model.
\<close>

datatype fpnum = Fp (mant: int) (expo: int)

definition valof :: "fpnum \<Rightarrow> real" where
  "valof x = of_int (mant x) * 2 powi (expo x)"

text \<open>\<open>rne_div n d\<close> is \<open>n / d\<close> rounded to the nearest integer, ties to even, for
  \<open>0 \<le> n\<close> and \<open>0 < d\<close>.\<close>

definition rne_div :: "int \<Rightarrow> int \<Rightarrow> int" where
  "rne_div n d =
     (let q = n div d; r = n mod d in
      if 2 * r < d then q
      else if d < 2 * r then q + 1
      else if even q then q else q + 1)"

definition round_prec :: "nat \<Rightarrow> fpnum \<Rightarrow> fpnum" where
  "round_prec p x =
     (let m = mant x; l = bitlen \<bar>m\<bar> in
      if l \<le> int p then x
      else let k = nat (l - int p) in Fp (sgn m * rne_div \<bar>m\<bar> (2 ^ k)) (expo x + int k))"

definition to_double :: "fpnum \<Rightarrow> fpnum" where
  "to_double x = round_prec 53 x"

definition to_float :: "fpnum \<Rightarrow> fpnum" where
  "to_float x = round_prec 24 x"

text \<open>The conversion of a \<open>long\<close> to \<open>double\<close>, and of an \<open>int\<close> to \<open>float\<close>.\<close>

definition double_of_long :: "long \<Rightarrow> fpnum" where
  "double_of_long n = to_double (Fp n 0)"

definition float_of_int :: "int \<Rightarrow> fpnum" where
  "float_of_int n = to_float (Fp n 0)"

text \<open>The products \<open>double * double\<close> and \<open>float * float\<close>.\<close>

definition dmul :: "fpnum \<Rightarrow> fpnum \<Rightarrow> fpnum" where
  "dmul x y = to_double (Fp (mant x * mant y) (expo x + expo y))"

definition fmul :: "fpnum \<Rightarrow> fpnum \<Rightarrow> fpnum" where
  "fmul x y = to_float (Fp (mant x * mant y) (expo x + expo y))"

text \<open>The cast \<open>(int) r\<close> drops the fraction (rounds towards zero).\<close>

definition int_of_float :: "fpnum \<Rightarrow> int" where
  "int_of_float x =
     (if 0 \<le> expo x then mant x * 2 ^ nat (expo x)
      else sgn (mant x) * (\<bar>mant x\<bar> div 2 ^ nat (- expo x)))"

text \<open>A decimal literal \<open>n / d\<close> (with \<open>0 < n\<close>, \<open>0 < d\<close>) of type \<open>double\<close>: the
  double nearest to it.  \<open>e\<close> is the exponent of the last mantissa bit.\<close>

definition double_lit :: "int \<Rightarrow> int \<Rightarrow> fpnum" where
  "double_lit n d =
     (let s = bitlen n - bitlen d;
          lg = (if 0 \<le> s then (if d * 2 ^ nat s \<le> n then s else s - 1)
                else (if d \<le> n * 2 ^ nat (- s) then s else s - 1));
          e = lg - 52
      in if 0 \<le> e then Fp (rne_div n (d * 2 ^ nat e)) e
         else Fp (rne_div (n * 2 ^ nat (- e)) d) e)"

section \<open>Method 3: the generator of Schrage\<close>

text \<open>Modelled from the spec: the class declaration of \<open>RandGen_3\<close> is in Rand.h, which
  is not among the sources.  Its state is the single integer \<open>ix\<close> (specification,
  section 3), which \<open>Eval\<close> and \<open>Seed\<close> use as a \<open>long\<close>.\<close>

record RandGen_3 =
  ix :: long

definition A3 :: long where
  "A3 = 16807"

definition P3 :: long where
  "P3 = 2147483647"

definition RandGen_3_Eval :: "RandGen_3 \<Rightarrow> fpnum \<times> RandGen_3" where
  "RandGen_3_Eval g =
     (let xhi = lshr (ix g) 16;
          xalo = lmul (land (ix g) 0xFFFF) A3;
          leftlo = lshr xalo 16;
          fhi = ladd (lmul xhi A3) leftlo;
          k = lshr fhi 15;
          ix1 = ladd (ladd (lsub (lsub xalo (lshl leftlo 16)) P3)
                           (lshl (lsub fhi (lshl k 15)) 16)) k;
          ix2 = (if ix1 < 0 then ladd ix1 P3 else ix1)
      in (to_float (dmul (double_of_long ix2) (double_lit 4656612875 (10 ^ 19))),
          g\<lparr>ix := ix2\<rparr>))"

definition RandGen_3_Seed :: "long \<Rightarrow> RandGen_3 \<Rightarrow> RandGen_3" where
  "RandGen_3_Seed seed_parameter g = g\<lparr>ix := ABS seed_parameter\<rparr>"

text \<open>The array forms \<open>Eval( int n, float *array )\<close>: the loop counter runs from \<open>0\<close>
  up to \<open>n\<close> (it cannot overflow, being below \<open>n\<close>), and each turn stores one value
  through \<open>*array++\<close>.  The list \<open>array\<close> holds the values stored so far, in the
  order of the cells \<open>array[0]\<close>, \<open>array[1]\<close>, ...\<close>

function RandGen_3_Eval_array_loop ::
    "int \<Rightarrow> int \<Rightarrow> RandGen_3 \<Rightarrow> fpnum list \<Rightarrow> fpnum list \<times> RandGen_3" where
  "RandGen_3_Eval_array_loop i n g array =
     (if i < n then
        (let xhi = lshr (ix g) 16;
             xalo = lmul (land (ix g) 0xFFFF) A3;
             leftlo = lshr xalo 16;
             fhi = ladd (lmul xhi A3) leftlo;
             k = lshr fhi 15;
             ix1 = ladd (ladd (lsub (lsub xalo (lshl leftlo 16)) P3)
                              (lshl (lsub fhi (lshl k 15)) 16)) k;
             ix2 = (if ix1 < 0 then ladd ix1 P3 else ix1);
             x = to_float (dmul (double_of_long ix2) (double_lit 4656612875 (10 ^ 19)))
         in RandGen_3_Eval_array_loop (i + 1) n (g\<lparr>ix := ix2\<rparr>) (array @ [x]))
      else (array, g))"
  by pat_completeness auto
termination
  by (relation "measure (\<lambda>(i, n, g, array). nat (n - i))") auto

declare RandGen_3_Eval_array_loop.simps [simp del]

definition RandGen_3_Eval_array :: "int \<Rightarrow> RandGen_3 \<Rightarrow> fpnum list \<times> RandGen_3" where
  "RandGen_3_Eval_array n g = RandGen_3_Eval_array_loop 0 n g []"

section \<open>Method 1: the shuffled generator of Numerical Recipes\<close>

text \<open>Modelled from the spec: the class declaration of \<open>RandGen_1\<close> is in Rand.h, which
  is not among the sources.  Its state is the integers \<open>index\<close> and \<open>seed\<close> and the array
  \<open>shuffle\<close> of 98 integers, of which cell \<open>0\<close> is unused (specification, section 3);
  the code uses all of them as \<open>long\<close>.\<close>

record RandGen_1 =
  index :: long
  seed :: long
  shuffle :: "long list"

definition M1 :: long where
  "M1 = 714025"

definition IA :: long where
  "IA = 1366"

definition IC :: long where
  "IC = 150889"

definition RM :: fpnum where
  "RM = double_lit 1400512 (10 ^ 12)"

definition RandGen_1_Eval :: "RandGen_1 \<Rightarrow> fpnum \<times> RandGen_1" where
  "RandGen_1_Eval g =
     (let offset0 = ladd 1 (ldiv (lmul 97 (index g)) M1);
          offset1 = (if offset0 > 97 then 97 else offset0);
          offset = (if offset1 < 1 then 1 else offset1);
          elem = shuffle g ! nat offset;
          rand = to_float (dmul (double_of_long elem) RM);
          seed1 = lrem (ladd (lmul IA (seed g)) IC) M1
      in (rand, g\<lparr>index := elem, seed := seed1,
                   shuffle := (shuffle g)[nat offset := seed1]\<rparr>))"

function RandGen_1_Eval_array_loop ::
    "int \<Rightarrow> int \<Rightarrow> RandGen_1 \<Rightarrow> fpnum list \<Rightarrow> fpnum list \<times> RandGen_1" where
  "RandGen_1_Eval_array_loop i n g array =
     (if i < n then
        (let offset0 = ladd 1 (ldiv (lmul 97 (index g)) M1);
             offset1 = (if offset0 > 97 then 97 else offset0);
             offset = (if offset1 < 1 then 1 else offset1);
             elem = shuffle g ! nat offset;
             x = to_float (dmul (double_of_long elem) RM);
             seed1 = lrem (ladd (lmul IA (seed g)) IC) M1
         in RandGen_1_Eval_array_loop (i + 1) n
              (g\<lparr>index := elem, seed := seed1,
                 shuffle := (shuffle g)[nat offset := seed1]\<rparr>)
              (array @ [x]))
      else (array, g))"
  by pat_completeness auto
termination
  by (relation "measure (\<lambda>(i, n, g, array). nat (n - i))") auto

declare RandGen_1_Eval_array_loop.simps [simp del]

definition RandGen_1_Eval_array :: "int \<Rightarrow> RandGen_1 \<Rightarrow> fpnum list \<times> RandGen_1" where
  "RandGen_1_Eval_array n g = RandGen_1_Eval_array_loop 0 n g []"

text \<open>\<open>Seed( long seed )\<close>: the loop over \<open>k = 1, ..., 97\<close> carries \<open>t\<close> and the table.\<close>

function RandGen_1_Seed_loop :: "int \<Rightarrow> long \<Rightarrow> long list \<Rightarrow> long \<times> long list" where
  "RandGen_1_Seed_loop k t shfl =
     (if k \<le> 97 then
        (let t1 = lrem (ladd (lmul IA t) IC) M1
         in RandGen_1_Seed_loop (k + 1) t1 (shfl[nat k := ABS t1]))
      else (t, shfl))"
  by pat_completeness auto
termination
  by (relation "measure (\<lambda>(k, t, shfl). nat (98 - k))") auto

declare RandGen_1_Seed_loop.simps [simp del]

text \<open>
  The parameter of \<open>Seed\<close> is itself called \<open>seed\<close> and hides the member of that name
  inside the body: the assignment \<open>seed = ABS( t )\<close> of line 94 changes the parameter,
  which is dead afterwards, and the member \<open>seed\<close> keeps the value it had.
\<close>

definition RandGen_1_Seed :: "long \<Rightarrow> RandGen_1 \<Rightarrow> RandGen_1" where
  "RandGen_1_Seed seed_parameter g =
     (let t0 = lrem (ladd (ladd IC (ABS seed_parameter)) 1) M1;
          (t97, shfl) = RandGen_1_Seed_loop 1 t0 (shuffle g);
          t98 = lrem (ladd (lmul IA t97) IC) M1;
          seed_parameter1 = ABS t98
      in g\<lparr>shuffle := shfl, index := ABS t98\<rparr>)"

section \<open>Method 2: the multiple prime generator of Haas\<close>

text \<open>Modelled from the spec: the class declaration of \<open>RandGen_2\<close> is in Rand.h, which
  is not among the sources.  Its state is the four integers \<open>r\<close>, \<open>m\<close>, \<open>i\<close>, \<open>j\<close>
  (specification, section 3), used as \<open>long\<close>; the fields carry the prefix \<open>gen_\<close> here,
  single letters being variables in the theorems.\<close>

record RandGen_2 =
  gen_r :: long
  gen_m :: long
  gen_i :: long
  gen_j :: long

definition RandGen_2_Eval :: "RandGen_2 \<Rightarrow> fpnum \<times> RandGen_2" where
  "RandGen_2_Eval g =
     (let m0 = ladd (gen_m g) 7;
          m1 = (if m0 \<ge> 9973 then lsub m0 9871 else m0);
          i0 = ladd (gen_i g) 1907;
          i1 = (if i0 \<ge> 99991 then lsub i0 89989 else i0);
          j0 = ladd (gen_j g) 73939;
          j1 = (if j0 \<ge> 224729 then lsub j0 96233 else j0);
          r1 = ldiv (lrem (ladd (ladd (lmul (gen_r g) m1) i1) j1) 100000) 10
      in (to_float (dmul (double_of_long r1) (double_lit 100010001 (10 ^ 12))),
          \<lparr>gen_r = r1, gen_m = m1, gen_i = i1, gen_j = j1\<rparr>))"

function RandGen_2_Eval_array_loop ::
    "int \<Rightarrow> int \<Rightarrow> RandGen_2 \<Rightarrow> fpnum list \<Rightarrow> fpnum list \<times> RandGen_2" where
  "RandGen_2_Eval_array_loop k n g array =
     (if k < n then
        (let m0 = ladd (gen_m g) 7;
             m1 = (if m0 \<ge> 9973 then lsub m0 9871 else m0);
             i0 = ladd (gen_i g) 1907;
             i1 = (if i0 \<ge> 99991 then lsub i0 89989 else i0);
             j0 = ladd (gen_j g) 73939;
             j1 = (if j0 \<ge> 224729 then lsub j0 96233 else j0);
             r1 = ldiv (lrem (ladd (ladd (lmul (gen_r g) m1) i1) j1) 100000) 10;
             x = to_float (dmul (double_of_long r1) (double_lit 100010001 (10 ^ 12)))
         in RandGen_2_Eval_array_loop (k + 1) n
              \<lparr>gen_r = r1, gen_m = m1, gen_i = i1, gen_j = j1\<rparr> (array @ [x]))
      else (array, g))"
  by pat_completeness auto
termination
  by (relation "measure (\<lambda>(k, n, g, array). nat (n - k))") auto

declare RandGen_2_Eval_array_loop.simps [simp del]

definition RandGen_2_Eval_array :: "int \<Rightarrow> RandGen_2 \<Rightarrow> fpnum list \<times> RandGen_2" where
  "RandGen_2_Eval_array n g = RandGen_2_Eval_array_loop 0 n g []"

definition RandGen_2_Seed :: "long \<Rightarrow> RandGen_2 \<Rightarrow> RandGen_2" where
  "RandGen_2_Seed seed_parameter g =
     (let r0 = ABS seed_parameter;
          m0 = ABS (lmul seed_parameter 7);
          i0 = ABS (lmul seed_parameter 11);
          j0 = ABS (lmul seed_parameter 13);
          m1 = (if m0 < 100 then ladd m0 100 else m0);
          i1 = (if i0 < 10000 then ladd i0 10000 else i0);
          j1 = (if j0 < 128000 then ladd j0 128000 else j0)
      in \<lparr>gen_r = r0, gen_m = m1, gen_i = i1, gen_j = j1\<rparr>)"

section \<open>Successive scalar draws\<close>

text \<open>\<open>scalar_draws Eval n g\<close> calls the scalar \<open>Eval\<close> \<open>n\<close> times in a row, starting in
  state \<open>g\<close>: the values returned, in order, and the state after the last call.\<close>

fun scalar_draws :: "('g \<Rightarrow> fpnum \<times> 'g) \<Rightarrow> nat \<Rightarrow> 'g \<Rightarrow> fpnum list \<times> 'g" where
  "scalar_draws Eval 0 g = ([], g)"
| "scalar_draws Eval (Suc n) g =
     (let (x, g1) = Eval g; (xs, g2) = scalar_draws Eval n g1 in (x # xs, g2))"

section \<open>\<open>RandGen::Perm\<close>\<close>

text \<open>
  \<open>Perm\<close> is a member of the base class and reaches the generator only through the
  virtual array form \<open>Eval( N, R )\<close>; the model takes that function as the argument
  \<open>Eval\<close>, together with the generator state \<open>g\<close>.  An access outside the caller's
  array \<open>perm\<close> or outside the buffer \<open>R\<close>, and a read of a cell of \<open>R\<close> that was never
  written, are faults, and a fault ends the run.
\<close>

datatype fault = OutOfBounds | Uninitialised

definition Nmax :: int where
  "Nmax = 20"

text \<open>The difference \<open>len - 1\<close> overflows at \<open>len = INT_MIN\<close>, and the sum \<open>i + 1\<close> at
  \<open>i = INT_MAX\<close>; both wrap around in 32 bits.  The counters \<open>j++\<close>, \<open>i--\<close>, \<open>n++\<close> cannot
  overflow (\<open>j < len\<close>, \<open>0 < i\<close>, and \<open>n\<close> counts turns of the loop), nor can \<open>L - N\<close>,
  \<open>N\<close> being \<open>L\<close> or \<open>Nmax\<close> with \<open>Nmax \<le> L\<close>.\<close>

definition isub :: "int \<Rightarrow> int \<Rightarrow> int" where
  "isub a b = wrap 32 (a - b)"

definition iadd :: "int \<Rightarrow> int \<Rightarrow> int" where
  "iadd a b = wrap 32 (a + b)"

text \<open>The first loop: \<open>for( int j = 0; j < len; j++ ) perm[j] = j\<close>.\<close>

function Perm_init :: "int \<Rightarrow> int \<Rightarrow> int list \<Rightarrow> fault + int list" where
  "Perm_init j len perm =
     (if j < len then
        (if 0 \<le> j \<and> nat j < length perm then Perm_init (j + 1) len (perm[nat j := j])
         else Inl OutOfBounds)
      else Inr perm)"
  by pat_completeness auto
termination
  by (relation "measure (\<lambda>(j, len, perm). nat (len - j))") auto

declare Perm_init.simps [simp del]

text \<open>The buffer \<open>float R[ Nmax ]\<close>: a cell is \<open>None\<close> until it is written.
  \<open>Eval( N, R )\<close> stores its values in \<open>R[0]\<close>, \<open>R[1]\<close>, ...\<close>

definition R_store :: "fpnum list \<Rightarrow> fpnum option list \<Rightarrow> fault + fpnum option list" where
  "R_store xs R =
     (if length xs \<le> length R then Inr (map Some xs @ drop (length xs) R)
      else Inl OutOfBounds)"

definition R_read :: "fpnum option list \<Rightarrow> int \<Rightarrow> fault + fpnum" where
  "R_read R n =
     (if 0 \<le> n \<and> nat n < length R then
        (case R ! nat n of None \<Rightarrow> Inl Uninitialised | Some x \<Rightarrow> Inr x)
      else Inl OutOfBounds)"

text \<open>The swap of \<open>perm[i]\<close> and \<open>perm[k]\<close> through \<open>tmp\<close>.\<close>

definition perm_swap :: "int list \<Rightarrow> int \<Rightarrow> int \<Rightarrow> fault + int list" where
  "perm_swap perm i k =
     (if 0 \<le> i \<and> nat i < length perm \<and> 0 \<le> k \<and> nat k < length perm then
        (let tmp = perm ! nat i;
             perm1 = perm[nat i := perm ! nat k]
         in Inr (perm1[nat k := tmp]))
      else Inl OutOfBounds)"

text \<open>The second loop, \<open>for( int i = len - 1; i > 0; i-- )\<close>, with the locals \<open>n\<close>,
  \<open>N\<close>, \<open>L\<close>, \<open>R\<close> that it changes.\<close>

function Perm_loop ::
    "(int \<Rightarrow> 'g \<Rightarrow> fpnum list \<times> 'g) \<Rightarrow> int \<Rightarrow> int \<Rightarrow> int \<Rightarrow> int \<Rightarrow> fpnum option list \<Rightarrow>
     int list \<Rightarrow> 'g \<Rightarrow> fault + (int list \<times> 'g)" where
  "Perm_loop Eval i n N L R perm g =
     (if i > 0 then
        (case (if n = N then
                 (let N1 = (if L < Nmax then L else Nmax);
                      (xs, g1) = Eval N1 g
                  in case R_store xs R of
                       Inl e \<Rightarrow> Inl e
                     | Inr R1 \<Rightarrow> Inr (0, N1, L - N1, R1, g1))
               else Inr (n, N, L, R, g)) of
           Inl e \<Rightarrow> Inl e
         | Inr (n1, N1, L1, R1, g1) \<Rightarrow>
             (case R_read R1 n1 of
                Inl e \<Rightarrow> Inl e
              | Inr x \<Rightarrow>
                  (let r = fmul (float_of_int (iadd i 1)) x;
                       k = int_of_float r
                   in if k < i then
                        (case perm_swap perm i k of
                           Inl e \<Rightarrow> Inl e
                         | Inr perm1 \<Rightarrow> Perm_loop Eval (i - 1) (n1 + 1) N1 L1 R1 perm1 g1)
                      else Perm_loop Eval (i - 1) (n1 + 1) N1 L1 R1 perm g1)))
      else Inr (perm, g))"
  by pat_completeness auto
termination
  by (relation "measure (\<lambda>(Eval, i, n, N, L, R, perm, g). nat i)") auto

declare Perm_loop.simps [simp del]

definition Perm ::
    "(int \<Rightarrow> 'g \<Rightarrow> fpnum list \<times> 'g) \<Rightarrow> int \<Rightarrow> int list \<Rightarrow> 'g \<Rightarrow> fault + (int list \<times> 'g)" where
  "Perm Eval len perm g =
     (let R = replicate (nat Nmax) None;
          L = isub len 1;
          N = 0;
          n = 0
      in case Perm_init 0 len perm of
           Inl e \<Rightarrow> Inl e
         | Inr perm1 \<Rightarrow> Perm_loop Eval (isub len 1) n N L R perm1 g)"

section \<open>Predicates and sequences of the specification\<close>

text \<open>The bounds that the specification states for the members \<open>m\<close>, \<open>i\<close>, \<open>j\<close> of
  Method 2.\<close>

definition RandGen_2_in_range :: "RandGen_2 \<Rightarrow> bool" where
  "RandGen_2_in_range g \<longleftrightarrow>
     100 \<le> gen_m g \<and> gen_m g < 9973 \<and>
     10000 \<le> gen_i g \<and> gen_i g < 99991 \<and>
     128000 \<le> gen_j g \<and> gen_j g < 224729"

text \<open>The sequence \<open>t\<close> of the specification of \<open>RandGen_1::Seed\<close>:
  \<open>t 0 = (IC + |s| + 1) mod M1\<close> and \<open>t k = (IA * t (k - 1) + IC) mod M1\<close>.\<close>

fun seed_t :: "int \<Rightarrow> nat \<Rightarrow> int" where
  "seed_t s 0 = (IC + \<bar>s\<bar> + 1) mod M1"
| "seed_t s (Suc k) = (IA * seed_t s k + IC) mod M1"

text \<open>A value of the closed interval from \<open>0\<close> to \<open>1\<close>.\<close>

definition in_unit_closed :: "fpnum \<Rightarrow> bool" where
  "in_unit_closed x \<longleftrightarrow> 0 \<le> valof x \<and> valof x \<le> 1"

text \<open>A value of the half-open interval from \<open>0\<close> to \<open>1\<close>, \<open>1\<close> excluded.\<close>

definition in_unit_half_open :: "fpnum \<Rightarrow> bool" where
  "in_unit_half_open x \<longleftrightarrow> 0 \<le> valof x \<and> valof x < 1"

text \<open>The invariant of the second loop of \<open>Perm\<close>: \<open>n\<close> values of the batch of \<open>N\<close> are
  used up, \<open>L\<close> more are to be fetched, which makes the \<open>i\<close> values that the loop
  still needs; the first \<open>N\<close> cells of \<open>R\<close> hold drawn values.\<close>

definition Perm_invariant :: "int \<Rightarrow> int \<Rightarrow> int \<Rightarrow> int \<Rightarrow> fpnum option list \<Rightarrow> bool" where
  "Perm_invariant i n N L R \<longleftrightarrow>
     0 \<le> n \<and> n \<le> N \<and> N \<le> Nmax \<and> length R = nat Nmax \<and> L + (N - n) = i \<and>
     (\<forall>q<nat N. \<exists>x. R ! q = Some x \<and> 0 \<le> mant x)"

section \<open>Arithmetic without overflow\<close>

text \<open>Inside the 64-bit range the operations on \<open>long\<close> are the mathematical ones.\<close>

lemma wrap_id: "- (2 ^ 63) \<le> x \<Longrightarrow> x < 2 ^ 63 \<Longrightarrow> wrap 64 x = x"
  by (simp add: wrap_def)

lemma lrem_nonneg: "0 \<le> a \<Longrightarrow> 0 < b \<Longrightarrow> lrem a b = a mod b"
  by (cases "a = 0") (simp_all add: lrem_def)

lemma ldiv_nonneg:
  assumes "0 \<le> a" "0 < b" "a < 2 ^ 63"
  shows "ldiv a b = a div b"
proof -
  have 1: "0 \<le> a div b" using assms by (simp add: pos_imp_zdiv_nonneg_iff)
  have 2: "a div b \<le> a" using assms
    by (metis div_by_1 int_one_le_iff_zero_less zdiv_mono2 zero_less_one)
  have "sgn a * sgn b * (\<bar>a\<bar> div \<bar>b\<bar>) = a div b"
    using assms by (cases "a = 0") simp_all
  moreover have "wrap 64 (a div b) = a div b"
    using 1 2 assms by (intro wrap_id) auto
  ultimately show ?thesis
    unfolding ldiv_def by (simp only:)
qed

lemma ladd_id: "- (2 ^ 63) \<le> a + b \<Longrightarrow> a + b < 2 ^ 63 \<Longrightarrow> ladd a b = a + b"
  by (simp add: ladd_def wrap_id)

lemma lsub_id: "- (2 ^ 63) \<le> a - b \<Longrightarrow> a - b < 2 ^ 63 \<Longrightarrow> lsub a b = a - b"
  by (simp add: lsub_def wrap_id)

lemma lmul_id: "- (2 ^ 63) \<le> a * b \<Longrightarrow> a * b < 2 ^ 63 \<Longrightarrow> lmul a b = a * b"
  by (simp add: lmul_def wrap_id)

lemma ABS_nonneg: "0 \<le> x \<Longrightarrow> ABS x = x"
  by (simp add: ABS_def lneg_def wrap_def)

lemma ABS_abs: "- (2 ^ 63) < x \<Longrightarrow> x < 2 ^ 63 \<Longrightarrow> ABS x = \<bar>x\<bar>"
  by (simp add: ABS_def lneg_def wrap_id)


section \<open>The decomposition of Schrage\<close>

text \<open>With \<open>16807 * x = k * 2 ^ 31 + f15 * 2 ^ 16 + lo\<close> and \<open>2 ^ 31 = 1\<close> modulo
  \<open>2 ^ 31 - 1\<close>, the sum \<open>v = k + f15 * 2 ^ 16 + lo\<close> is congruent to \<open>16807 * x\<close> and
  lies below twice the modulus.\<close>

lemma schrage_arith:
  fixes x :: int
  assumes r: "0 \<le> x" "x < 2 ^ 31"
    and xalo_def: "xalo = (x mod 65536) * 16807"
    and fhi_def: "fhi = (x div 65536) * 16807 + xalo div 65536"
    and v_def: "v = (xalo - (xalo div 65536) * 65536) + (fhi - (fhi div 32768) * 32768) * 65536 + fhi div 32768"
  shows "0 \<le> v" "v < 2 * 2147483647" "v mod 2147483647 = (16807 * x) mod 2147483647"
        "0 \<le> xalo" "xalo < 2^31" "0 \<le> fhi" "fhi < 2^31"
proof -
  have xlo: "0 \<le> x mod 65536" "x mod 65536 < 65536" by simp_all
  have xhi: "0 \<le> x div 65536" "x div 65536 < 32768" using r by auto
  show a0: "0 \<le> xalo" using xlo by (simp add: xalo_def)
  show a1: "xalo < 2^31" using xlo by (simp add: xalo_def)
  have ll: "0 \<le> xalo div 65536" "xalo div 65536 < 16807" using a0 xlo by (auto simp: xalo_def)
  show f0: "0 \<le> fhi" using xhi ll by (simp add: fhi_def)
  show f1: "fhi < 2^31" using xhi ll by (simp add: fhi_def)
  have k: "0 \<le> fhi div 32768" "fhi div 32768 < 16807" using f0 xhi ll by (auto simp: fhi_def)
  have lo: "xalo - (xalo div 65536) * 65536 = xalo mod 65536" by (simp add: minus_div_mult_eq_mod)
  have f15: "fhi - (fhi div 32768) * 32768 = fhi mod 32768" by (simp add: minus_div_mult_eq_mod)
  have v: "v = xalo mod 65536 + (fhi mod 32768) * 65536 + fhi div 32768" by (simp add: v_def lo f15)
  have b1: "0 \<le> xalo mod 65536" "xalo mod 65536 < 65536" by simp_all
  have b2: "0 \<le> fhi mod 32768" "fhi mod 32768 < 32768" by simp_all
  show "0 \<le> v" using b1 b2 k by (simp add: v)
  show "v < 2 * 2147483647" using b1 b2 k by (simp add: v)
  have ax: "16807 * x = fhi * 65536 + xalo mod 65536"
  proof -
    have "16807 * x = 16807 * ((x div 65536) * 65536 + x mod 65536)" by simp
    also have "\<dots> = (x div 65536) * 16807 * 65536 + xalo" by (simp only: xalo_def algebra_simps)
    also have "xalo = (xalo div 65536) * 65536 + xalo mod 65536" by simp
    finally show ?thesis by (simp add: fhi_def algebra_simps)
  qed
  have "fhi * 65536 = ((fhi div 32768) * 32768 + fhi mod 32768) * 65536" by simp
  then have "16807 * x = ((fhi div 32768) * 32768 + fhi mod 32768) * 65536 + xalo mod 65536"
    using ax by (simp only:)
  then have "16807 * x = v + (fhi div 32768) * 2147483647" by (simp only: v algebra_simps)
  then show "v mod 2147483647 = (16807 * x) mod 2147483647" by simp
qed

lemma and_mask16: "(a::int) AND 0xFFFF = a mod 65536"
  using take_bit_eq_mod[of 16 a] take_bit_eq_mask[of 16 a] by (simp add: mask_eq_exp_minus_1)

lemma schrage_code:
  fixes x :: int
  assumes "0 \<le> x" "x < 2 ^ 31"
  shows "(let xhi = lshr x 16;
          xalo = lmul (land x 0xFFFF) A3;
          leftlo = lshr xalo 16;
          fhi = ladd (lmul xhi A3) leftlo;
          k = lshr fhi 15;
          ix1 = ladd (ladd (lsub (lsub xalo (lshl leftlo 16)) P3)
                           (lshl (lsub fhi (lshl k 15)) 16)) k
      in (if ix1 < 0 then ladd ix1 P3 else ix1)) = (16807 * x) mod 2147483647"
proof -
  define xalo where "xalo = (x mod 65536) * 16807"
  define fhi where "fhi = (x div 65536) * 16807 + xalo div 65536"
  define v where "v = (xalo - (xalo div 65536) * 65536) + (fhi - (fhi div 32768) * 32768) * 65536 + fhi div 32768"
  note S = schrage_arith[OF assms xalo_def fhi_def v_def]
  have xhi: "0 \<le> x div 65536" "x div 65536 < 32768" using assms by auto
  have e1: "lshr x 16 = x div 65536" by (simp add: lshr_def drop_bit_eq_div)
  have e2: "lmul (land x 0xFFFF) A3 = xalo"
    using S(4,5) by (simp add: land_def and_mask16 A3_def xalo_def lmul_def wrap_id)
  have e3: "lshr xalo 16 = xalo div 65536" by (simp add: lshr_def drop_bit_eq_div)
  have ll: "0 \<le> xalo div 65536" "xalo div 65536 < 16807"
    using S(4) by (auto simp: xalo_def)
  have e4: "ladd (lmul (x div 65536) A3) (xalo div 65536) = fhi"
    using xhi ll by (simp add: lmul_def ladd_def A3_def wrap_id fhi_def)
  have e5: "lshr fhi 15 = fhi div 32768" by (simp add: lshr_def drop_bit_eq_div)
  have k: "0 \<le> fhi div 32768" "fhi div 32768 < 16807" using S(6) xhi ll by (auto simp: fhi_def)
  have lo: "xalo - (xalo div 65536) * 65536 = xalo mod 65536" by (simp add: minus_div_mult_eq_mod)
  have f15: "fhi - (fhi div 32768) * 32768 = fhi mod 32768" by (simp add: minus_div_mult_eq_mod)
  have b1: "0 \<le> xalo mod 65536" "xalo mod 65536 < 65536" by simp_all
  have b2: "0 \<le> fhi mod 32768" "fhi mod 32768 < 32768" by simp_all
  have e6: "lshl (xalo div 65536) 16 = (xalo div 65536) * 65536"
    using ll by (simp add: lshl_def push_bit_eq_mult wrap_id)
  have e7: "lsub xalo ((xalo div 65536) * 65536) = xalo mod 65536"
    using b1 by (simp add: lsub_def lo wrap_id)
  have e8: "lsub (xalo mod 65536) P3 = xalo mod 65536 - 2147483647"
    using b1 by (simp add: lsub_def P3_def wrap_id)
  have e9: "lshl (fhi div 32768) 15 = (fhi div 32768) * 32768"
    using k by (simp add: lshl_def push_bit_eq_mult wrap_id)
  have e10: "lsub fhi ((fhi div 32768) * 32768) = fhi mod 32768"
    using b2 by (simp add: lsub_def f15 wrap_id)
  have e11: "lshl (fhi mod 32768) 16 = (fhi mod 32768) * 65536"
    using b2 by (simp add: lshl_def push_bit_eq_mult wrap_id)
  have e12: "ladd (xalo mod 65536 - 2147483647) ((fhi mod 32768) * 65536)
              = xalo mod 65536 - 2147483647 + (fhi mod 32768) * 65536"
    using b1 b2 by (simp add: ladd_def wrap_id)
  have e13: "ladd (xalo mod 65536 - 2147483647 + (fhi mod 32768) * 65536) (fhi div 32768)
              = v - 2147483647"
    using b1 b2 k by (simp add: ladd_def wrap_id v_def lo f15)
  have e14: "ladd (v - 2147483647) P3 = v"
    using S(1,2) by (simp add: ladd_def wrap_id P3_def)
  have fin: "(if v - 2147483647 < 0 then v else v - 2147483647) = v mod 2147483647"
    using S(1,2) by (auto simp: mod_pos_pos_trivial intro!: sym[OF int_mod_pos_eq[of _ _ 1, simplified]])
  show ?thesis
    unfolding Let_def e1 e2 e3 e4 e5 e6 e7 e8 e9 e10 e11 e12 e13 e14 fin S(3) ..
qed


lemma RandGen_3_Eval_mod:
  assumes "0 \<le> ix g" "ix g < 2 ^ 31"
  shows "RandGen_3_Eval g =
     (to_float (dmul (double_of_long ((16807 * ix g) mod 2147483647))
                     (double_lit 4656612875 (10 ^ 19))),
      g\<lparr>ix := (16807 * ix g) mod 2147483647\<rparr>)"
  using schrage_code[OF assms] unfolding RandGen_3_Eval_def Let_def by simp

text \<open>
  Claim C7.  For every \<open>ix\<close> in \<open>[0, 2 ^ 31 - 2]\<close>, one call of \<open>RandGen_3::Eval()\<close> sets
  \<open>ix\<close> to \<open>(16807 * ix) mod 2147483647\<close>: the computation on the 16-bit halves agrees
  with the direct modular product.  The value returned is the new \<open>ix\<close>, converted to
  \<open>double\<close>, times the literal \<open>4.656612875E-10\<close>, converted to \<open>float\<close>.  After
  \<open>Seed(1)\<close> the first call leaves \<open>ix = 16807\<close>.
\<close>

theorem RandGen_3_Eval_is_modular_product:
  "(0 \<le> ix g \<and> ix g \<le> 2 ^ 31 - 2 \<longrightarrow>
      RandGen_3_Eval g =
        (to_float (dmul (double_of_long ((16807 * ix g) mod 2147483647))
                        (double_lit 4656612875 (10 ^ 19))),
         g\<lparr>ix := (16807 * ix g) mod 2147483647\<rparr>))
   \<and> ix (snd (RandGen_3_Eval (RandGen_3_Seed 1 g))) = 16807"
proof (intro conjI impI)
  assume "0 \<le> ix g \<and> ix g \<le> 2 ^ 31 - 2"
  then show "RandGen_3_Eval g =
        (to_float (dmul (double_of_long ((16807 * ix g) mod 2147483647))
                        (double_lit 4656612875 (10 ^ 19))),
         g\<lparr>ix := (16807 * ix g) mod 2147483647\<rparr>)"
    by (intro RandGen_3_Eval_mod) auto
next
  have "ix (RandGen_3_Seed 1 g) = 1" by (simp add: RandGen_3_Seed_def ABS_def)
  then show "ix (snd (RandGen_3_Eval (RandGen_3_Seed 1 g))) = 16807"
    by (subst RandGen_3_Eval_mod) simp_all
qed

theorem RandGen_3_Eval_is_modular_product_witness:
  "0 \<le> ix \<lparr>ix = 2147483646\<rparr> \<and> ix \<lparr>ix = 2147483646\<rparr> \<le> 2 ^ 31 - 2 \<and>
   RandGen_3_Eval \<lparr>ix = 2147483646\<rparr> =
     (to_float (dmul (double_of_long 2147466840) (double_lit 4656612875 (10 ^ 19))),
      \<lparr>ix = 2147466840\<rparr>)"
  using RandGen_3_Eval_is_modular_product [of "\<lparr>ix = 2147483646\<rparr>"] by simp

section \<open>The table accesses of Method 1\<close>

text \<open>
  Claim C10.  In both forms of \<open>RandGen_1::Eval\<close> the offset that indexes the table lies
  in \<open>[1, 97]\<close> after the two comparisons, whatever the member \<open>index\<close> holds.  A scalar
  call, and each turn of the loop of the array form, reads the one cell
  \<open>shuffle[offset]\<close> and writes the same cell; so \<open>shuffle[0]\<close> is never touched and
  no access leaves the 98 cells of the array.
\<close>

theorem RandGen_1_Eval_offset_in_table:
  "(\<exists>offset. 1 \<le> offset \<and> offset \<le> 97 \<and>
     RandGen_1_Eval g =
       (to_float (dmul (double_of_long (shuffle g ! nat offset)) RM),
        g\<lparr>index := shuffle g ! nat offset,
          seed := lrem (ladd (lmul IA (seed g)) IC) M1,
          shuffle := (shuffle g)[nat offset := lrem (ladd (lmul IA (seed g)) IC) M1]\<rparr>))
   \<and> (i < n \<longrightarrow> (\<exists>offset. 1 \<le> offset \<and> offset \<le> 97 \<and>
     RandGen_1_Eval_array_loop i n g array =
       RandGen_1_Eval_array_loop (i + 1) n
        (g\<lparr>index := shuffle g ! nat offset,
          seed := lrem (ladd (lmul IA (seed g)) IC) M1,
          shuffle := (shuffle g)[nat offset := lrem (ladd (lmul IA (seed g)) IC) M1]\<rparr>)
        (array @ [to_float (dmul (double_of_long (shuffle g ! nat offset)) RM)])))"
proof -
  define offset0 where "offset0 = ladd 1 (ldiv (lmul 97 (index g)) M1)"
  define offset where "offset = (if (if offset0 > 97 then 97 else offset0) < 1 then 1
                                 else (if offset0 > 97 then 97 else offset0))"
  have r: "1 \<le> offset" "offset \<le> 97" by (simp_all add: offset_def)
  have 1: "RandGen_1_Eval g =
       (to_float (dmul (double_of_long (shuffle g ! nat offset)) RM),
        g\<lparr>index := shuffle g ! nat offset,
          seed := lrem (ladd (lmul IA (seed g)) IC) M1,
          shuffle := (shuffle g)[nat offset := lrem (ladd (lmul IA (seed g)) IC) M1]\<rparr>)"
    unfolding RandGen_1_Eval_def Let_def offset_def offset0_def ..
  have 2: "RandGen_1_Eval_array_loop i n g array =
       RandGen_1_Eval_array_loop (i + 1) n
        (g\<lparr>index := shuffle g ! nat offset,
          seed := lrem (ladd (lmul IA (seed g)) IC) M1,
          shuffle := (shuffle g)[nat offset := lrem (ladd (lmul IA (seed g)) IC) M1]\<rparr>)
        (array @ [to_float (dmul (double_of_long (shuffle g ! nat offset)) RM)])" if "i < n"
    by (subst RandGen_1_Eval_array_loop.simps) (simp only: that if_True Let_def offset_def offset0_def)
  show ?thesis using r 1 2 by blast
qed

theorem RandGen_1_Eval_offset_in_table_witness:
  "(0::int) < 1 \<and> (\<exists>offset. 1 \<le> offset \<and> offset \<le> 97 \<and>
     RandGen_1_Eval_array_loop 0 1 \<lparr>index = 0, seed = 0, shuffle = replicate 98 0\<rparr> [] =
       RandGen_1_Eval_array_loop (0 + 1) 1
        (\<lparr>index = 0, seed = 0, shuffle = replicate 98 0\<rparr>
         \<lparr>index := replicate 98 0 ! nat offset,
          seed := lrem (ladd (lmul IA 0) IC) M1,
          shuffle := (replicate 98 0)[nat offset := lrem (ladd (lmul IA 0) IC) M1]\<rparr>)
        ([] @ [to_float (dmul (double_of_long (replicate 98 0 ! nat offset)) RM)]))"
proof -
  have h: "(0::int) < 1" by simp
  from RandGen_1_Eval_offset_in_table
         [of "\<lparr>index = 0, seed = 0, shuffle = replicate 98 0\<rparr>" 0 1 "[]"]
  have "\<exists>offset. 1 \<le> offset \<and> offset \<le> 97 \<and>
     RandGen_1_Eval_array_loop 0 1 \<lparr>index = 0, seed = 0, shuffle = replicate 98 0\<rparr> [] =
       RandGen_1_Eval_array_loop (0 + 1) 1
        (\<lparr>index = 0, seed = 0, shuffle = replicate 98 0\<rparr>
         \<lparr>index := shuffle \<lparr>index = 0, seed = 0, shuffle = replicate 98 0\<rparr> ! nat offset,
          seed := lrem (ladd (lmul IA (seed \<lparr>index = 0, seed = 0, shuffle = replicate 98 0\<rparr>)) IC) M1,
          shuffle := (shuffle \<lparr>index = 0, seed = 0, shuffle = replicate 98 0\<rparr>)[nat offset := lrem (ladd (lmul IA (seed \<lparr>index = 0, seed = 0, shuffle = replicate 98 0\<rparr>)) IC) M1]\<rparr>)
        ([] @ [to_float (dmul (double_of_long (shuffle \<lparr>index = 0, seed = 0, shuffle = replicate 98 0\<rparr> ! nat offset)) RM)])"
    using h by blast
  then show ?thesis by (simp only: RandGen_1.simps h simp_thms)
qed

section \<open>The array forms against repeated scalar calls\<close>

lemma scalar_draws_Suc:
  "scalar_draws Eval (Suc n) g =
     (fst (Eval g) # fst (scalar_draws Eval n (snd (Eval g))),
      snd (scalar_draws Eval n (snd (Eval g))))"
  by (simp add: Let_def case_prod_beta)

lemma length_scalar_draws: "length (fst (scalar_draws Eval n g)) = n"
proof (induction n arbitrary: g)
  case 0
  show ?case by simp
next
  case (Suc n)
  show ?case unfolding scalar_draws_Suc using Suc by simp
qed

text \<open>The loop of each array form, started at counter \<open>i\<close>, appends what \<open>n - i\<close>
  scalar calls return.\<close>

lemma RandGen_1_Eval_array_loop_eq:
  "RandGen_1_Eval_array_loop i n g array =
     (let (xs, g1) = scalar_draws RandGen_1_Eval (nat (n - i)) g in (array @ xs, g1))"
proof (induction i n g array rule: RandGen_1_Eval_array_loop.induct)
  case (1 i n g array)
  show ?case
  proof (cases "i < n")
    case True
    then have s: "nat (n - i) = Suc (nat (n - (i + 1)))" by simp
    show ?thesis
      apply (subst RandGen_1_Eval_array_loop.simps)
      apply (simp only: True if_True s scalar_draws.simps)
      apply (simp only: Let_def)
      apply (subst 1[unfolded Let_def, OF True refl refl refl refl refl refl])
      apply (simp add: RandGen_1_Eval_def Let_def split: prod.splits)
      done
  next
    case False
    then show ?thesis
      by (subst RandGen_1_Eval_array_loop.simps) simp
  qed
qed

lemma RandGen_2_Eval_array_loop_eq:
  "RandGen_2_Eval_array_loop k n g array =
     (let (xs, g1) = scalar_draws RandGen_2_Eval (nat (n - k)) g in (array @ xs, g1))"
proof (induction k n g array rule: RandGen_2_Eval_array_loop.induct)
  case (1 k n g array)
  show ?case
  proof (cases "k < n")
    case True
    then have s: "nat (n - k) = Suc (nat (n - (k + 1)))" by simp
    show ?thesis
      apply (subst RandGen_2_Eval_array_loop.simps)
      apply (simp only: True if_True s scalar_draws.simps)
      apply (simp only: Let_def)
      apply (subst 1[unfolded Let_def, OF True refl refl refl refl refl refl refl refl])
      apply (simp add: RandGen_2_Eval_def Let_def split: prod.splits)
      done
  next
    case False
    then show ?thesis
      by (subst RandGen_2_Eval_array_loop.simps) simp
  qed
qed

lemma RandGen_3_Eval_array_loop_eq:
  "RandGen_3_Eval_array_loop i n g array =
     (let (xs, g1) = scalar_draws RandGen_3_Eval (nat (n - i)) g in (array @ xs, g1))"
proof (induction i n g array rule: RandGen_3_Eval_array_loop.induct)
  case (1 i n g array)
  show ?case
  proof (cases "i < n")
    case True
    then have s: "nat (n - i) = Suc (nat (n - (i + 1)))" by simp
    show ?thesis
      apply (subst RandGen_3_Eval_array_loop.simps)
      apply (simp only: True if_True s scalar_draws.simps)
      apply (simp only: Let_def)
      apply (subst 1[unfolded Let_def, OF True refl refl refl refl refl refl refl refl])
      apply (simp add: RandGen_3_Eval_def Let_def split: prod.splits)
      done
  next
    case False
    then show ?thesis
      by (subst RandGen_3_Eval_array_loop.simps) simp
  qed
qed

text \<open>
  Claim C3.  For each of the three generators, every state and every \<open>n\<close>, the array
  form \<open>Eval(n, buffer)\<close> stores in \<open>buffer[0]\<close>, ..., \<open>buffer[n - 1]\<close> exactly the values
  that \<open>n\<close> successive scalar calls \<open>Eval()\<close> return from the same state, in the same
  order, and ends in the same state; \<open>n = 0\<close> stores nothing and leaves the state as
  it is.  (A negative \<open>n\<close> behaves like \<open>0\<close>.)
\<close>

theorem Eval_array_is_repeated_Eval:
  "RandGen_1_Eval_array n g1 = scalar_draws RandGen_1_Eval (nat n) g1 \<and>
   RandGen_2_Eval_array n g2 = scalar_draws RandGen_2_Eval (nat n) g2 \<and>
   RandGen_3_Eval_array n g3 = scalar_draws RandGen_3_Eval (nat n) g3 \<and>
   RandGen_1_Eval_array 0 g1 = ([], g1) \<and>
   RandGen_2_Eval_array 0 g2 = ([], g2) \<and>
   RandGen_3_Eval_array 0 g3 = ([], g3)"
  by (simp add: RandGen_1_Eval_array_def RandGen_2_Eval_array_def RandGen_3_Eval_array_def
      RandGen_1_Eval_array_loop_eq RandGen_2_Eval_array_loop_eq RandGen_3_Eval_array_loop_eq
      split: prod.splits)

section \<open>The state of Method 2\<close>

lemma RandGen_2_Eval_members:
  "gen_m (snd (RandGen_2_Eval g)) =
     (if ladd (gen_m g) 7 \<ge> 9973 then lsub (ladd (gen_m g) 7) 9871 else ladd (gen_m g) 7)"
  "gen_i (snd (RandGen_2_Eval g)) =
     (if ladd (gen_i g) 1907 \<ge> 99991 then lsub (ladd (gen_i g) 1907) 89989 else ladd (gen_i g) 1907)"
  "gen_j (snd (RandGen_2_Eval g)) =
     (if ladd (gen_j g) 73939 \<ge> 224729 then lsub (ladd (gen_j g) 73939) 96233
      else ladd (gen_j g) 73939)"
  unfolding RandGen_2_Eval_def Let_def snd_conv RandGen_2.simps by (rule refl)+

lemma RandGen_2_Eval_enters_range:
  assumes "93 \<le> gen_m g" "gen_m g < 19837" "8093 \<le> gen_i g" "gen_i g < 188073"
    "54061 \<le> gen_j g" "gen_j g < 247023"
  shows "RandGen_2_in_range (snd (RandGen_2_Eval g))"
proof -
  have m: "ladd (gen_m g) 7 = gen_m g + 7" "lsub (gen_m g + 7) 9871 = gen_m g + 7 - 9871"
    using assms by (simp_all add: ladd_def lsub_def wrap_id)
  have i: "ladd (gen_i g) 1907 = gen_i g + 1907" "lsub (gen_i g + 1907) 89989 = gen_i g + 1907 - 89989"
    using assms by (simp_all add: ladd_def lsub_def wrap_id)
  have j: "ladd (gen_j g) 73939 = gen_j g + 73939" "lsub (gen_j g + 73939) 96233 = gen_j g + 73939 - 96233"
    using assms by (simp_all add: ladd_def lsub_def wrap_id)
  show ?thesis
    using assms unfolding RandGen_2_in_range_def RandGen_2_Eval_members m i j
    by simp
qed
lemma RandGen_2_Eval_in_range:
  assumes "RandGen_2_in_range g"
  shows "RandGen_2_in_range (snd (RandGen_2_Eval g))"
  using assms[unfolded RandGen_2_in_range_def]
  by (intro RandGen_2_Eval_enters_range) simp_all

lemma RandGen_2_draws_in_range:
  "RandGen_2_in_range g \<Longrightarrow> RandGen_2_in_range (snd (scalar_draws RandGen_2_Eval n g))"
proof (induction n arbitrary: g)
  case 0
  then show ?case by simp
next
  case (Suc n)
  show ?case
    unfolding scalar_draws_Suc snd_conv
    by (rule Suc.IH) (rule RandGen_2_Eval_in_range [OF Suc.prems])
qed

lemma RandGen_2_Seed_small:
  assumes "\<bar>s\<bar> \<le> 2833"
  shows "gen_r (RandGen_2_Seed s g) = \<bar>s\<bar>"
    and "gen_m (RandGen_2_Seed s g) = (if 7 * \<bar>s\<bar> < 100 then 7 * \<bar>s\<bar> + 100 else 7 * \<bar>s\<bar>)"
    and "gen_i (RandGen_2_Seed s g) = (if 11 * \<bar>s\<bar> < 10000 then 11 * \<bar>s\<bar> + 10000 else 11 * \<bar>s\<bar>)"
    and "gen_j (RandGen_2_Seed s g) = 13 * \<bar>s\<bar> + 128000"
proof -
  have a: "ABS s = \<bar>s\<bar>" using assms by (intro ABS_abs) auto
  have m: "lmul s 7 = s * 7" using assms by (intro lmul_id) auto
  have i: "lmul s 11 = s * 11" using assms by (intro lmul_id) auto
  have j: "lmul s 13 = s * 13" using assms by (intro lmul_id) auto
  have am: "ABS (s * 7) = 7 * \<bar>s\<bar>" using assms by (subst ABS_abs) auto
  have ai: "ABS (s * 11) = 11 * \<bar>s\<bar>" using assms by (subst ABS_abs) auto
  have aj: "ABS (s * 13) = 13 * \<bar>s\<bar>" using assms by (subst ABS_abs) auto
  show "gen_r (RandGen_2_Seed s g) = \<bar>s\<bar>"
    by (simp add: RandGen_2_Seed_def Let_def a)
  show "gen_m (RandGen_2_Seed s g) = (if 7 * \<bar>s\<bar> < 100 then 7 * \<bar>s\<bar> + 100 else 7 * \<bar>s\<bar>)"
    using assms by (simp add: RandGen_2_Seed_def Let_def m am ladd_def wrap_id)
  show "gen_i (RandGen_2_Seed s g) = (if 11 * \<bar>s\<bar> < 10000 then 11 * \<bar>s\<bar> + 10000 else 11 * \<bar>s\<bar>)"
    using assms by (simp add: RandGen_2_Seed_def Let_def i ai ladd_def wrap_id)
  show "gen_j (RandGen_2_Seed s g) = 13 * \<bar>s\<bar> + 128000"
    using assms by (simp add: RandGen_2_Seed_def Let_def j aj ladd_def wrap_id)
qed

lemma RandGen_2_first_Eval_in_range:
  assumes "\<bar>s\<bar> \<le> 2833"
  shows "RandGen_2_in_range (snd (RandGen_2_Eval (RandGen_2_Seed s g)))"
  using assms
  by (intro RandGen_2_Eval_enters_range) (simp_all add: RandGen_2_Seed_small)

text \<open>
  Claim C6, as amended.  For every seed \<open>s\<close> with \<open>|s| \<le> 2833\<close> and every \<open>k \<ge> 1\<close>: after
  \<open>RandGen_2::Seed(s)\<close> and \<open>k\<close> calls of \<open>Eval()\<close> the members satisfy
  \<open>100 \<le> m < 9973\<close>, \<open>10000 \<le> i < 99991\<close> and \<open>128000 \<le> j < 224729\<close>.  \<open>Seed\<close> raises
  the members that are too small and leaves large ones as they are, and one call of
  \<open>Eval\<close> subtracts each constant at most once: the bound on \<open>s\<close> is what keeps
  \<open>m = 7 * |s|\<close> below \<open>9973 + 9871 - 7\<close>.
\<close>

theorem RandGen_2_state_in_range:
  assumes "\<bar>s\<bar> \<le> 2833" and "1 \<le> k"
  shows "RandGen_2_in_range (snd (scalar_draws RandGen_2_Eval k (RandGen_2_Seed s g)))"
proof -
  obtain n where k: "k = Suc n" using assms(2) by (cases k) auto
  show ?thesis
    unfolding k scalar_draws_Suc snd_conv
    by (rule RandGen_2_draws_in_range) (rule RandGen_2_first_Eval_in_range [OF assms(1)])
qed

theorem RandGen_2_state_in_range_witness:
  "\<bar>5::int\<bar> \<le> 2833 \<and> (1::nat) \<le> 3 \<and>
   RandGen_2_in_range (snd (scalar_draws RandGen_2_Eval 3
      (RandGen_2_Seed 5 \<lparr>gen_r = 0, gen_m = 0, gen_i = 0, gen_j = 0\<rparr>)))"
  using RandGen_2_state_in_range [of 5 3 "\<lparr>gen_r = 0, gen_m = 0, gen_i = 0, gen_j = 0\<rparr>"]
  by simp

text \<open>The claim C6 as stated, for every seed, fails at \<open>s = 2834\<close> and \<open>k = 1\<close>: \<open>Seed\<close>
  sets \<open>m = 19838\<close>, and \<open>Eval\<close> leaves \<open>m = 19838 + 7 - 9871 = 9974\<close>.\<close>

theorem RandGen_2_state_out_of_range:
  "\<not> RandGen_2_in_range (snd (scalar_draws RandGen_2_Eval 1
      (RandGen_2_Seed 2834 \<lparr>gen_r = 0, gen_m = 0, gen_i = 0, gen_j = 0\<rparr>)))"
  unfolding One_nat_def scalar_draws_Suc snd_conv scalar_draws.simps RandGen_2_in_range_def
    RandGen_2_Eval_def RandGen_2_Seed_def Let_def
  by (simp add: ABS_def lmul_def ladd_def lsub_def wrap_id)

section \<open>Seeding Method 1\<close>

lemma lcg_step_nonneg:
  assumes "0 \<le> t" "t < M1"
  shows "lrem (ladd (lmul IA t) IC) M1 = (IA * t + IC) mod M1"
proof -
  have b: "0 \<le> 1366 * t" "1366 * t < 975358150" using assms by (simp_all add: M1_def)
  have 1: "lmul IA t = IA * t" using b by (intro lmul_id) (simp_all add: IA_def)
  have 2: "ladd (IA * t) IC = IA * t + IC" using b by (intro ladd_id) (simp_all add: IA_def IC_def)
  show ?thesis unfolding 1 2 using b by (intro lrem_nonneg) (simp_all add: IA_def IC_def M1_def)
qed

lemma seed_t_range: "0 \<le> seed_t s k" "seed_t s k < M1"
  by (cases k; simp add: M1_def)+

lemma seed_t_funpow: "seed_t s k = ((\<lambda>t. (IA * t + IC) mod M1) ^^ k) (seed_t s 0)"
  by (induction k) simp_all

lemma RandGen_1_Seed_loop_unfold:
  assumes "0 \<le> t" "t < M1" "k \<le> 97"
  shows "RandGen_1_Seed_loop k t shfl =
           RandGen_1_Seed_loop (k + 1) ((IA * t + IC) mod M1) (shfl[nat k := (IA * t + IC) mod M1])"
proof -
  have "0 \<le> (IA * t + IC) mod M1" by (simp add: M1_def)
  then have "ABS ((IA * t + IC) mod M1) = (IA * t + IC) mod M1" by (rule ABS_nonneg)
  then show ?thesis
    by (subst RandGen_1_Seed_loop.simps)
       (simp only: assms(3) if_True Let_def lcg_step_nonneg[OF assms(1,2)])
qed

lemma RandGen_1_Seed_loop_table:
  assumes "length shfl = 98" "0 \<le> t" "t < M1" "1 \<le> k" "k \<le> 98"
  shows "fst (RandGen_1_Seed_loop k t shfl) = ((\<lambda>t. (IA * t + IC) mod M1) ^^ nat (98 - k)) t
       \<and> length (snd (RandGen_1_Seed_loop k t shfl)) = 98
       \<and> (\<forall>j<98. snd (RandGen_1_Seed_loop k t shfl) ! j =
              (if k \<le> int j then ((\<lambda>t. (IA * t + IC) mod M1) ^^ (j + 1 - nat k)) t else shfl ! j))"
  using assms
proof (induction k t shfl rule: RandGen_1_Seed_loop.induct)
  case (1 k t shfl)
  let ?f = "\<lambda>t. (IA * t + IC) mod M1"
  show ?case
  proof (cases "k \<le> 97")
    case False
    with 1(5,6) have k: "k = 98" by simp
    show ?thesis
      by (subst (1 2 3) RandGen_1_Seed_loop.simps) (simp add: k 1(2))
  next
    case True
    have ft: "0 \<le> ?f t" "?f t < M1" by (simp_all add: M1_def)
    note u = RandGen_1_Seed_loop_unfold[OF 1(3,4) True, of shfl]
    have IH: "fst (RandGen_1_Seed_loop (k + 1) (?f t) (shfl[nat k := ?f t])) = (?f ^^ nat (98 - (k + 1))) (?f t)
       \<and> length (snd (RandGen_1_Seed_loop (k + 1) (?f t) (shfl[nat k := ?f t]))) = 98
       \<and> (\<forall>j<98. snd (RandGen_1_Seed_loop (k + 1) (?f t) (shfl[nat k := ?f t])) ! j =
              (if k + 1 \<le> int j then (?f ^^ (j + 1 - nat (k + 1))) (?f t) else (shfl[nat k := ?f t]) ! j))"
      using 1(1)[OF True refl] 1(2) ft True 1(5)
      by (simp only: lcg_step_nonneg[OF 1(3,4)] ABS_nonneg[OF ft(1)] length_list_update) simp
    have n: "nat (98 - k) = Suc (nat (98 - (k + 1)))" using True by simp
    have fst: "fst (RandGen_1_Seed_loop k t shfl) = (?f ^^ nat (98 - k)) t"
      unfolding u n using IH by (simp only: funpow_Suc_right o_apply)
    have len: "length (snd (RandGen_1_Seed_loop k t shfl)) = 98"
      unfolding u using IH by simp
    have ent: "snd (RandGen_1_Seed_loop k t shfl) ! j =
              (if k \<le> int j then (?f ^^ (j + 1 - nat k)) t else shfl ! j)" if j: "j < 98" for j
    proof -
      from IH j have e: "snd (RandGen_1_Seed_loop k t shfl) ! j =
         (if k + 1 \<le> int j then (?f ^^ (j + 1 - nat (k + 1))) (?f t) else (shfl[nat k := ?f t]) ! j)"
        unfolding u by simp
      consider "int j < k" | "int j = k" | "k < int j" by linarith
      then show ?thesis
      proof cases
        case 1
        then have "nat k \<noteq> j" by auto
        with 1 show ?thesis unfolding e by simp
      next
        case 2
        then have "nat k = j" by auto
        with 2 j 1(2) show ?thesis unfolding e by simp
      next
        case 3
        then have "j + 1 - nat k = Suc (j + 1 - nat (k + 1))" using 1(5) by (simp add: nat_add_distrib)
        with 3 show ?thesis unfolding e by (simp only: funpow_Suc_right o_apply) simp
      qed
    qed
    show ?thesis using fst len ent by blast
  qed
qed


lemma RandGen_1_Seed_t0:
  assumes "\<bar>s\<bar> \<le> 2 ^ 62"
  shows "lrem (ladd (ladd IC (ABS s)) 1) M1 = seed_t s 0"
proof -
  have a: "ABS s = \<bar>s\<bar>" using assms by (intro ABS_abs) auto
  have 1: "ladd IC \<bar>s\<bar> = IC + \<bar>s\<bar>" using assms by (intro ladd_id) (auto simp: IC_def)
  have 2: "ladd (IC + \<bar>s\<bar>) 1 = IC + \<bar>s\<bar> + 1" using assms by (intro ladd_id) (auto simp: IC_def)
  have "lrem (IC + \<bar>s\<bar> + 1) M1 = (IC + \<bar>s\<bar> + 1) mod M1"
    by (intro lrem_nonneg) (auto simp: IC_def M1_def)
  then show ?thesis unfolding a 1 2 by simp
qed

lemma RandGen_1_Seed_result:
  assumes len: "length (shuffle g) = 98" and s: "\<bar>s\<bar> \<le> 2 ^ 62"
  shows "index (RandGen_1_Seed s g) = seed_t s 98"
    and "seed (RandGen_1_Seed s g) = seed g"
    and "length (shuffle (RandGen_1_Seed s g)) = 98"
    and "\<And>k. 1 \<le> k \<Longrightarrow> k \<le> 97 \<Longrightarrow> shuffle (RandGen_1_Seed s g) ! k = seed_t s k"
    and "shuffle (RandGen_1_Seed s g) ! 0 = shuffle g ! 0"
proof -
  let ?f = "\<lambda>t. (IA * t + IC) mod M1"
  let ?L = "RandGen_1_Seed_loop 1 (seed_t s 0) (shuffle g)"
  have T: "fst ?L = (?f ^^ nat (98 - 1)) (seed_t s 0) \<and> length (snd ?L) = 98
       \<and> (\<forall>j<98. snd ?L ! j =
              (if 1 \<le> int j then (?f ^^ (j + 1 - nat 1)) (seed_t s 0) else shuffle g ! j))"
    by (rule RandGen_1_Seed_loop_table[OF len seed_t_range[of s 0]]) simp_all
  have n97: "nat (98 - 1) = 97" by simp
  have f97: "fst ?L = seed_t s 97"
    using T unfolding n97 by (simp only: seed_t_funpow[of s 97])
  have "seed_t s (Suc 97) = (IA * seed_t s 97 + IC) mod M1" by (rule seed_t.simps(2))
  moreover have "Suc 97 = 98" by simp
  ultimately have s98: "(IA * seed_t s 97 + IC) mod M1 = seed_t s 98" by (simp only:)
  have t98: "lrem (ladd (lmul IA (seed_t s 97)) IC) M1 = seed_t s 98"
    using lcg_step_nonneg[OF seed_t_range[of s 97]] s98 by (simp only:)
  have a98: "ABS (seed_t s 98) = seed_t s 98" by (rule ABS_nonneg) (rule seed_t_range)
  have g: "RandGen_1_Seed s g = g\<lparr>shuffle := snd ?L, index := seed_t s 98\<rparr>"
    unfolding RandGen_1_Seed_def Let_def case_prod_beta RandGen_1_Seed_t0[OF s] f97 t98 a98 ..
  show "index (RandGen_1_Seed s g) = seed_t s 98" by (simp add: g)
  show "seed (RandGen_1_Seed s g) = seed g" by (simp add: g)
  show "length (shuffle (RandGen_1_Seed s g)) = 98" using T by (simp add: g)
  show "shuffle (RandGen_1_Seed s g) ! k = seed_t s k" if k: "1 \<le> k" "k \<le> 97" for k
  proof -
    have "k < 98" using k by simp
    with T have "snd ?L ! k = (if 1 \<le> int k then (?f ^^ (k + 1 - nat 1)) (seed_t s 0) else shuffle g ! k)"
      by blast
    also have "\<dots> = (?f ^^ k) (seed_t s 0)" using k by simp
    finally show ?thesis by (simp only: g seed_t_funpow[of s k] RandGen_1.simps RandGen_1.update_convs)
         (simp)
  qed
  have "(0::nat) < 98" by simp
  with T have "snd ?L ! 0 = (if 1 \<le> int 0 then (?f ^^ (0 + 1 - nat 1)) (seed_t s 0) else shuffle g ! 0)"
    by blast
  then show "shuffle (RandGen_1_Seed s g) ! 0 = shuffle g ! 0" by (simp add: g)
qed


text \<open>The bounds of the table and of \<open>index\<close> after \<open>Seed\<close> need no condition on the
  argument: every value stored is \<open>ABS\<close> of a remainder modulo \<open>M1\<close>.\<close>

lemma lrem_M1_bounded: "- M1 < lrem a M1" "lrem a M1 < M1"
proof -
  have "\<bar>lrem a M1\<bar> < M1"
    unfolding lrem_def M1_def by (simp add: abs_mult abs_sgn_eq)
  then show "- M1 < lrem a M1" "lrem a M1 < M1" by simp_all
qed

lemma ABS_bounded:
  assumes "- M1 < t" "t < M1"
  shows "0 \<le> ABS t" "ABS t < M1"
  using assms by (simp_all add: ABS_def lneg_def wrap_id M1_def)

lemma RandGen_1_Seed_loop_bounds:
  assumes "length shfl = 98" "1 \<le> k" "k \<le> 98"
  shows "length (snd (RandGen_1_Seed_loop k t shfl)) = 98
       \<and> (\<forall>j. k \<le> int j \<and> j \<le> 97 \<longrightarrow>
              0 \<le> snd (RandGen_1_Seed_loop k t shfl) ! j \<and> snd (RandGen_1_Seed_loop k t shfl) ! j < M1)
       \<and> (\<forall>j. int j < k \<longrightarrow> snd (RandGen_1_Seed_loop k t shfl) ! j = shfl ! j)"
  using assms
proof (induction k t shfl rule: RandGen_1_Seed_loop.induct)
  case (1 k t shfl)
  show ?case
  proof (cases "k \<le> 97")
    case False
    then have e: "RandGen_1_Seed_loop k t shfl = (t, shfl)"
      by (subst RandGen_1_Seed_loop.simps) simp
    show ?thesis unfolding e using False 1(2) by simp
  next
    case True
    define t1 where "t1 = lrem (ladd (lmul IA t) IC) M1"
    define a where "a = ABS t1"
    have a: "0 \<le> a" "a < M1"
      unfolding a_def using ABS_bounded[OF lrem_M1_bounded[of "ladd (lmul IA t) IC"]]
      by (simp_all add: t1_def)
    have u: "RandGen_1_Seed_loop k t shfl = RandGen_1_Seed_loop (k + 1) t1 (shfl[nat k := a])"
      by (subst RandGen_1_Seed_loop.simps) (simp only: True if_True Let_def t1_def a_def)
    have IH: "length (snd (RandGen_1_Seed_loop (k + 1) t1 (shfl[nat k := a]))) = 98
       \<and> (\<forall>j. k + 1 \<le> int j \<and> j \<le> 97 \<longrightarrow>
              0 \<le> snd (RandGen_1_Seed_loop (k + 1) t1 (shfl[nat k := a])) ! j
              \<and> snd (RandGen_1_Seed_loop (k + 1) t1 (shfl[nat k := a])) ! j < M1)
       \<and> (\<forall>j. int j < k + 1 \<longrightarrow>
              snd (RandGen_1_Seed_loop (k + 1) t1 (shfl[nat k := a])) ! j = (shfl[nat k := a]) ! j)"
      using 1(1)[OF True t1_def] 1(2,3) True unfolding a_def[symmetric] by simp
    have ent: "0 \<le> snd (RandGen_1_Seed_loop k t shfl) ! j \<and> snd (RandGen_1_Seed_loop k t shfl) ! j < M1"
      if "k \<le> int j" "j \<le> 97" for j
    proof (cases "int j = k")
      case True
      then have "snd (RandGen_1_Seed_loop k t shfl) ! j = (shfl[nat k := a]) ! j"
        unfolding u using IH by simp
      also have "\<dots> = a" using True that 1(2) by auto
      finally show ?thesis using a by simp
    next
      case False
      then have "k + 1 \<le> int j" using that by simp
      then show ?thesis unfolding u using IH that by simp
    qed
    have old: "snd (RandGen_1_Seed_loop k t shfl) ! j = shfl ! j" if "int j < k" for j
    proof -
      have "snd (RandGen_1_Seed_loop k t shfl) ! j = (shfl[nat k := a]) ! j"
        unfolding u using IH that by simp
      also have "\<dots> = shfl ! j" using that by auto
      finally show ?thesis .
    qed
    show ?thesis using IH ent old unfolding u by simp
  qed
qed

lemma RandGen_1_Seed_invariant_any_seed:
  assumes len: "length (shuffle g) = 98"
  shows "length (shuffle (RandGen_1_Seed s g)) = 98
        \<and> seed (RandGen_1_Seed s g) = seed g
        \<and> 0 \<le> index (RandGen_1_Seed s g) \<and> index (RandGen_1_Seed s g) < M1
        \<and> (\<forall>k. 1 \<le> k \<and> k \<le> 97 \<longrightarrow>
               0 \<le> shuffle (RandGen_1_Seed s g) ! k \<and> shuffle (RandGen_1_Seed s g) ! k < M1)"
proof -
  define t0 where "t0 = lrem (ladd (ladd IC (ABS s)) 1) M1"
  define L where "L = RandGen_1_Seed_loop 1 t0 (shuffle g)"
  define t98 where "t98 = lrem (ladd (lmul IA (fst L)) IC) M1"
  have g: "RandGen_1_Seed s g = g\<lparr>shuffle := snd L, index := ABS t98\<rparr>"
    unfolding RandGen_1_Seed_def Let_def case_prod_beta t0_def[symmetric] L_def[symmetric]
      t98_def[symmetric] ..
  have B: "length (snd L) = 98"
      "\<forall>j. 1 \<le> int j \<and> j \<le> 97 \<longrightarrow> 0 \<le> snd L ! j \<and> snd L ! j < M1"
    using RandGen_1_Seed_loop_bounds[OF len, of 1 t0] unfolding L_def by simp_all
  have i: "0 \<le> ABS t98" "ABS t98 < M1"
    using ABS_bounded[OF lrem_M1_bounded[of "ladd (lmul IA (fst L)) IC"]] by (simp_all add: t98_def)
  show ?thesis unfolding g using B i by simp
qed


section \<open>Draws of Method 1 after seeding\<close>

lemma RandGen_1_Eval_index_small:
  assumes "0 \<le> index g" "index g < M1"
  shows "RandGen_1_Eval g =
       (to_float (dmul (double_of_long (shuffle g ! nat (1 + 97 * index g div M1))) RM),
        g\<lparr>index := shuffle g ! nat (1 + 97 * index g div M1),
          seed := lrem (ladd (lmul IA (seed g)) IC) M1,
          shuffle := (shuffle g)[nat (1 + 97 * index g div M1) :=
                        lrem (ladd (lmul IA (seed g)) IC) M1]\<rparr>)"
proof -
  have b: "0 \<le> 97 * index g" "97 * index g < 97 * 714025" using assms by (simp_all add: M1_def)
  have 1: "lmul 97 (index g) = 97 * index g" using b by (intro lmul_id) simp_all
  have 2: "ldiv (97 * index g) M1 = 97 * index g div M1"
    using b by (intro ldiv_nonneg) (simp_all add: M1_def)
  have d: "0 \<le> 97 * index g div M1" "97 * index g div M1 < 97"
    using b by (simp_all add: M1_def pos_imp_zdiv_nonneg_iff)
  have 3: "ladd 1 (97 * index g div M1) = 1 + 97 * index g div M1"
    using d by (intro ladd_id) simp_all
  show ?thesis
    unfolding RandGen_1_Eval_def Let_def 1 2 3 using d by simp
qed

lemma seed_t_21: "seed_t 21 98 = 144033" "seed_t 21 20 = 141316"
  by code_simp+

lemma seed_t_1: "seed_t 1 98 = 231763" "seed_t 1 32 = 478479"
  by code_simp+

lemma RandGen_1_two_draws_after_Seed_21:
  assumes "0 \<le> seed0" "seed0 < M1"
  shows "fst (scalar_draws RandGen_1_Eval 2
            (RandGen_1_Seed 21 \<lparr>index = 0, seed = seed0, shuffle = replicate 98 0\<rparr>)) =
         [to_float (dmul (double_of_long 141316) RM),
          to_float (dmul (double_of_long ((IA * seed0 + IC) mod M1)) RM)]"
proof -
  define g where "g = \<lparr>index = 0, seed = seed0, shuffle = replicate 98 0\<rparr>"
  define A where "A = RandGen_1_Seed 21 g"
  have len: "length (shuffle g) = 98" by (simp add: g_def)
  have s: "\<bar>21::int\<bar> \<le> 2 ^ 62" by simp
  note R = RandGen_1_Seed_result[OF len s, folded A_def]
  have iA: "index A = 144033" using R(1) by (simp add: seed_t_21)
  have sA: "seed A = seed0" using R(2) by (simp add: g_def)
  have lA: "length (shuffle A) = 98" by (rule R(3))
  have eA: "shuffle A ! 20 = 141316" using R(4)[of 20] by (simp add: seed_t_21)
  have o1: "nat (1 + 97 * index A div M1) = 20" by (simp add: iA M1_def)
  have new: "lrem (ladd (lmul IA seed0) IC) M1 = (IA * seed0 + IC) mod M1"
    by (rule lcg_step_nonneg[OF assms])
  define B where "B = A\<lparr>index := 141316, seed := (IA * seed0 + IC) mod M1,
                         shuffle := (shuffle A)[20 := (IA * seed0 + IC) mod M1]\<rparr>"
  have E1: "RandGen_1_Eval A = (to_float (dmul (double_of_long 141316) RM), B)"
    by (subst RandGen_1_Eval_index_small) (simp_all add: iA M1_def[of] o1[unfolded iA] eA sA new[unfolded M1_def] B_def)
  have iB: "index B = 141316" by (simp add: B_def)
  have o2: "nat (1 + 97 * index B div M1) = 20" by (simp add: iB M1_def)
  have eB: "shuffle B ! 20 = (IA * seed0 + IC) mod M1" using lA by (simp add: B_def)
  have E2: "fst (RandGen_1_Eval B) = to_float (dmul (double_of_long ((IA * seed0 + IC) mod M1)) RM)"
    by (subst RandGen_1_Eval_index_small) (simp_all add: iB M1_def[of] o2[unfolded iB] eB)
  have two: "(2::nat) = Suc (Suc 0)" by simp
  show ?thesis
    unfolding g_def[symmetric] A_def[symmetric] two scalar_draws_Suc scalar_draws.simps fst_conv snd_conv E1 E2
    ..
qed


section \<open>Values of the floating-point model\<close>

lemma RM_value: "RM = Fp 6613730927656733 (- 72)"
  unfolding RM_def double_lit_def Let_def by (simp add: rne_div_def compute_bitlen)

lemma float_of_150889: "to_float (dmul (double_of_long 150889) RM) = Fp 14181570 (- 26)"
  unfolding RM_value to_float_def dmul_def double_of_long_def to_double_def round_prec_def Let_def
  by (simp add: rne_div_def compute_bitlen)

lemma float_of_152255: "to_float (dmul (double_of_long 152255) RM) = Fp 14309956 (- 26)"
  unfolding RM_value to_float_def dmul_def double_of_long_def to_double_def round_prec_def Let_def
  by (simp add: rne_div_def compute_bitlen)

section \<open>The member \<open>seed\<close> of Method 1 is not seeded\<close>

text \<open>\<open>Seed\<close> never writes the member \<open>seed\<close>, whatever its argument.\<close>

lemma RandGen_1_Seed_keeps_seed: "seed (RandGen_1_Seed s g) = seed g"
  unfolding RandGen_1_Seed_def Let_def case_prod_beta by simp

text \<open>The other two generators overwrite all of their members.\<close>

lemma RandGen_2_Seed_resets: "RandGen_2_Seed s g = RandGen_2_Seed s g'"
  unfolding RandGen_2_Seed_def ..

lemma RandGen_3_Seed_resets: "RandGen_3_Seed s g = RandGen_3_Seed s g'"
  unfolding RandGen_3_Seed_def by (cases g, cases g') simp

text \<open>
  Claim C1 (determinism after \<open>Seed\<close>, whatever the state before), evaluated for
  \<open>RandGen_1\<close> at two instances that differ in the member \<open>seed\<close> only (\<open>0\<close> and \<open>1\<close>).
  Both receive \<open>Seed(21)\<close>, which sets \<open>index = 144033\<close> and \<open>shuffle[20] = 141316\<close>.
  The first \<open>Eval()\<close> reads cell \<open>1 + 97 * 144033 / 714025 = 20\<close> and stores there the
  advanced member \<open>seed\<close>, \<open>150889\<close> in one instance and \<open>152255\<close> in the other; the
  second \<open>Eval()\<close> reads cell \<open>1 + 97 * 141316 / 714025 = 20\<close> again, and the two
  instances return different values.
\<close>

theorem RandGen_1_Seed_depends_on_prior_state:
  "fst (scalar_draws RandGen_1_Eval 2
          (RandGen_1_Seed 21 \<lparr>index = 0, seed = 0, shuffle = replicate 98 0\<rparr>)) =
     [to_float (dmul (double_of_long 141316) RM), Fp 14181570 (- 26)]
   \<and> fst (scalar_draws RandGen_1_Eval 2
          (RandGen_1_Seed 21 \<lparr>index = 0, seed = 1, shuffle = replicate 98 0\<rparr>)) =
     [to_float (dmul (double_of_long 141316) RM), Fp 14309956 (- 26)]
   \<and> valof (Fp 14181570 (- 26)) \<noteq> valof (Fp 14309956 (- 26))"
proof (intro conjI)
  have "(IA * 0 + IC) mod M1 = 150889" by (simp add: IA_def IC_def M1_def)
  then show "fst (scalar_draws RandGen_1_Eval 2
          (RandGen_1_Seed 21 \<lparr>index = 0, seed = 0, shuffle = replicate 98 0\<rparr>)) =
     [to_float (dmul (double_of_long 141316) RM), Fp 14181570 (- 26)]"
    by (subst RandGen_1_two_draws_after_Seed_21) (simp_all add: M1_def float_of_150889)
  have "(IA * 1 + IC) mod M1 = 152255" by (simp add: IA_def IC_def M1_def)
  then show "fst (scalar_draws RandGen_1_Eval 2
          (RandGen_1_Seed 21 \<lparr>index = 0, seed = 1, shuffle = replicate 98 0\<rparr>)) =
     [to_float (dmul (double_of_long 141316) RM), Fp 14309956 (- 26)]"
    by (subst RandGen_1_two_draws_after_Seed_21) (simp_all add: M1_def float_of_152255)
  show "valof (Fp 14181570 (- 26)) \<noteq> valof (Fp 14309956 (- 26))"
    by (simp add: valof_def)
qed

text \<open>
  Claim C2 (the state after \<open>RandGen_1::Seed(s)\<close>), evaluated at \<open>s = 1\<close> on an instance
  whose member \<open>seed\<close> holds \<open>0\<close>: \<open>index\<close> becomes \<open>|t 98| = 231763\<close>, the member \<open>seed\<close>
  still holds \<open>0\<close>.  (The table and \<open>index\<close> are as the claim says: lemma
  \<open>RandGen_1_Seed_result\<close>.)
\<close>

theorem RandGen_1_Seed_leaves_member_seed:
  "seed (RandGen_1_Seed 1 \<lparr>index = 0, seed = 0, shuffle = replicate 98 0\<rparr>) = 0
   \<and> index (RandGen_1_Seed 1 \<lparr>index = 0, seed = 0, shuffle = replicate 98 0\<rparr>) = 231763
   \<and> \<bar>seed_t 1 98\<bar> = 231763"
proof -
  have len: "length (shuffle \<lparr>index = 0, seed = 0, shuffle = replicate 98 0\<rparr>) = 98" by simp
  have s: "\<bar>1::int\<bar> \<le> 2 ^ 62" by simp
  note R = RandGen_1_Seed_result[OF len s]
  show ?thesis using R(1,2) by (simp add: seed_t_1)
qed

text \<open>
  Claim C8 (the table entries stay non-negative), evaluated on an instance whose member
  \<open>seed\<close> holds \<open>-1000\<close>: after \<open>Seed(1)\<close> the table is non-negative (lemma
  \<open>RandGen_1_Seed_invariant_any_seed\<close>), and the first \<open>Eval()\<close> stores
  \<open>(1366 * -1000 + 150889) % 714025 = -501086\<close> in cell \<open>32\<close>.
\<close>

theorem RandGen_1_table_entry_negative:
  "shuffle (snd (RandGen_1_Eval
      (RandGen_1_Seed 1 \<lparr>index = 0, seed = - 1000, shuffle = replicate 98 0\<rparr>))) ! 32 = - 501086"
proof -
  define A where "A = RandGen_1_Seed 1 \<lparr>index = 0, seed = - 1000, shuffle = replicate 98 0\<rparr>"
  have len: "length (shuffle \<lparr>index = 0, seed = - 1000, shuffle = replicate 98 0\<rparr>) = 98" by simp
  have s: "\<bar>1::int\<bar> \<le> 2 ^ 62" by simp
  note R = RandGen_1_Seed_result[OF len s, folded A_def]
  have iA: "index A = 231763" using R(1) by (simp add: seed_t_1)
  have sA: "seed A = - 1000" using R(2) by simp
  have o: "nat (1 + 97 * index A div M1) = 32" by (simp add: iA M1_def)
  have new: "lrem (ladd (lmul IA (- 1000)) IC) M1 = - 501086"
    by (simp add: lmul_def ladd_def wrap_id lrem_def IA_def IC_def M1_def)
  have "RandGen_1_Eval A =
       (to_float (dmul (double_of_long (shuffle A ! 32)) RM),
        A\<lparr>index := shuffle A ! 32, seed := - 501086, shuffle := (shuffle A)[32 := - 501086]\<rparr>)"
    by (subst RandGen_1_Eval_index_small) (simp_all add: iA M1_def[of] o[unfolded iA] sA new[unfolded M1_def])
  then show ?thesis unfolding A_def[symmetric] using R(3) by simp
qed


section \<open>Rounding keeps a value inside the unit interval\<close>

text \<open>Rounding to \<open>p\<close> bits never crosses \<open>0\<close> or \<open>1\<close>, both being representable: the
  rounded mantissa of a value \<open>m * 2 ^ e \<le> 1\<close> is at most \<open>2 ^ (- e - k)\<close>.\<close>

lemma rne_div_nonneg:
  assumes "0 \<le> n" "0 < d"
  shows "0 \<le> rne_div n d"
proof -
  have "0 \<le> n div d" using assms by (simp add: pos_imp_zdiv_nonneg_iff)
  then show ?thesis unfolding rne_div_def Let_def by simp
qed

lemma rne_div_le:
  assumes "0 < d" "n \<le> c * d"
  shows "rne_div n d \<le> c"
proof (cases "n = c * d")
  case True
  then show ?thesis using assms(1) unfolding rne_div_def Let_def by simp
next
  case False
  then have "n < c * d" using assms(2) by simp
  moreover have "n div d * d \<le> n"
    using assms(1) by (simp add: minus_mod_eq_div_mult[symmetric])
  ultimately have "n div d * d < c * d" by simp
  then have "n div d < c" using assms(1) by (simp add: mult_less_cancel_right)
  then show ?thesis unfolding rne_div_def Let_def by simp
qed

text \<open>A tie is rounded to the even neighbour: \<open>n / d \<le> c + 1 / 2\<close> with \<open>c\<close> even is rounded to
  at most \<open>c\<close>.  From below, \<open>c \<le> n / d\<close> is rounded to at least \<open>c\<close>, and \<open>c + 1 / 2 < n / d\<close>
  to more than \<open>c\<close>.\<close>

lemma rne_div_tie:
  assumes "0 < d" "even c" "2 * n \<le> 2 * c * d + d"
  shows "rne_div n d \<le> c"
proof (cases "n div d < c")
  case True
  then show ?thesis unfolding rne_div_def Let_def by simp
next
  case False
  then have q: "c \<le> n div d" by simp
  have n: "n = n div d * d + n mod d" by simp
  have r0: "0 \<le> n mod d" using assms(1) by simp
  have "c * d \<le> n div d * d" using q assms(1) by (simp add: mult_right_mono)
  have "2 * (n div d * d) + 2 * (n mod d) \<le> 2 * (c * d) + d"
    using assms(3) n by (metis distrib_left mult.assoc)
  have qc: "n div d = c"
  proof (rule ccontr)
    assume "n div d \<noteq> c"
    then have "c + 1 \<le> n div d" using q by simp
    then have "(c + 1) * d \<le> n div d * d" using assms(1) by (simp add: mult_right_mono)
    then show False
      using \<open>2 * (n div d * d) + 2 * (n mod d) \<le> 2 * (c * d) + d\<close> r0 assms(1)
      by (simp add: algebra_simps)
  qed
  have "2 * (n mod d) \<le> d"
    using \<open>2 * (n div d * d) + 2 * (n mod d) \<le> 2 * (c * d) + d\<close> unfolding qc by simp
  then show ?thesis unfolding rne_div_def Let_def qc using assms(2) by simp
qed

lemma rne_div_ge:
  assumes "0 < d" "c * d \<le> n"
  shows "c \<le> rne_div n d"
proof -
  have "c * d div d \<le> n div d" using assms by (intro zdiv_mono1) simp_all
  then have "c \<le> n div d" using assms(1) by simp
  then show ?thesis unfolding rne_div_def Let_def by simp
qed

lemma rne_div_above_tie:
  assumes "0 < d" "2 * c * d + d < 2 * n"
  shows "c + 1 \<le> rne_div n d"
proof (cases "c + 1 \<le> n div d")
  case True
  then show ?thesis unfolding rne_div_def Let_def by simp
next
  case False
  have "c * d \<le> n" using assms by simp
  then have "c \<le> rne_div n d" "c * d div d \<le> n div d"
    using assms(1) by (intro rne_div_ge zdiv_mono1; simp)+
  then have "c \<le> n div d" using assms(1) by simp
  with False have q: "n div d = c" by simp
  have "n = n div d * d + n mod d" by simp
  then have "n = c * d + n mod d" unfolding q .
  then have "d < 2 * (n mod d)" using assms(2) by (simp add: algebra_simps)
  then show ?thesis unfolding rne_div_def Let_def q by simp
qed

lemma valof_nonneg: "0 \<le> mant x \<Longrightarrow> 0 \<le> valof x"
  by (simp add: valof_def)

lemma valof_nonpos: "mant x \<le> 0 \<Longrightarrow> valof x \<le> 0"
  by (simp add: valof_def mult_le_0_iff)

lemma round_prec_nonneg:
  assumes "0 \<le> mant x"
  shows "0 \<le> mant (round_prec p x)"
proof -
  have "0 \<le> sgn (mant x) * rne_div \<bar>mant x\<bar> (2 ^ k)" for k
    using assms rne_div_nonneg[of "\<bar>mant x\<bar>" "2 ^ k"] by (simp add: sgn_if)
  then show ?thesis using assms unfolding round_prec_def Let_def by simp
qed

lemma round_prec_le_1:
  assumes p: "1 \<le> p" and x: "valof x \<le> 1"
  shows "valof (round_prec p x) \<le> 1"
proof (cases "bitlen \<bar>mant x\<bar> \<le> int p")
  case True
  then show ?thesis using x unfolding round_prec_def Let_def by simp
next
  case False
  define m where "m = mant x"
  define e where "e = expo x"
  define l where "l = bitlen \<bar>m\<bar>"
  define k where "k = nat (l - int p)"
  have lp: "int p < l" using False by (simp add: l_def m_def)
  have r: "round_prec p x = Fp (sgn m * rne_div \<bar>m\<bar> (2 ^ k)) (e + int k)"
    using False unfolding round_prec_def Let_def m_def e_def l_def k_def by simp
  show ?thesis
  proof (cases "m \<le> 0")
    case True
    have "0 \<le> rne_div \<bar>m\<bar> (2 ^ k)" by (rule rne_div_nonneg) simp_all
    with True have "sgn m * rne_div \<bar>m\<bar> (2 ^ k) \<le> 0" by (simp add: sgn_if mult_le_0_iff)
    then have "valof (round_prec p x) \<le> 0" unfolding r by (intro valof_nonpos) simp
    then show ?thesis by simp
  next
    case False
    then have m0: "0 < m" by simp
    then have am: "\<bar>m\<bar> = m" "sgn m = 1" by simp_all
    have bl: "2 ^ nat (l - 1) \<le> m" using bitlen_bounds[OF m0] by (simp add: l_def am)
    have m1: "1 \<le> m" using m0 by simp
    have xv: "real_of_int m * 2 powi e \<le> 1" using x by (simp add: valof_def m_def e_def)
    have e0: "e \<le> 0"
    proof (rule ccontr)
      assume "\<not> e \<le> 0"
      then have "0 \<le> e" "1 \<le> nat e" by simp_all
      then have "(2::real) ^ 1 \<le> 2 ^ nat e" by (intro power_increasing) simp_all
      then have "2 \<le> (2::real) powi e" using \<open>0 \<le> e\<close> by (simp add: power_int_def)
      moreover have "1 \<le> real_of_int m" using m1 by simp
      ultimately have "1 * 2 \<le> real_of_int m * 2 powi e" by (intro mult_mono) simp_all
      with xv show False by simp
    qed
    define n where "n = nat (- e)"
    have en: "e = - int n" using e0 by (simp add: n_def)
    have pw: "(2::real) powi e = 1 / 2 ^ n" unfolding en by (simp add: power_int_minus field_simps)
    have "real_of_int m \<le> 2 ^ n" using xv unfolding pw by (simp add: field_simps)
    then have mn: "m \<le> 2 ^ n" by (metis of_int_le_iff of_int_numeral of_int_power)
    have "(2::int) ^ nat (l - 1) \<le> 2 ^ n" using bl mn by (rule order_trans)
    then have "nat (l - 1) \<le> n" by simp
    then have kn: "k \<le> n" using p lp unfolding k_def by simp
    have "(2::int) ^ n = 2 ^ (n - k) * 2 ^ k" using kn by (simp add: power_add[symmetric])
    with mn have "m \<le> 2 ^ (n - k) * 2 ^ k" by simp
    then have rn: "rne_div m (2 ^ k) \<le> 2 ^ (n - k)" by (intro rne_div_le) simp_all
    have ek: "e + int k = - int (n - k)" using kn unfolding en by simp
    have "valof (round_prec p x) = real_of_int (rne_div m (2 ^ k)) / 2 ^ (n - k)"
      unfolding r am ek valof_def by (simp add: power_int_minus field_simps)
    also have "\<dots> \<le> 1"
    proof -
      have "real_of_int (rne_div m (2 ^ k)) \<le> real_of_int (2 ^ (n - k))"
        using rn by (simp only: of_int_le_iff)
      then show ?thesis by simp
    qed
    finally show ?thesis .
  qed
qed

text \<open>More generally rounding to \<open>p\<close> bits never rises above a number of at most \<open>p\<close> bits, and
  a value of at most \<open>1 + 2 ^ - p\<close>, half way between \<open>1\<close> and the next number of \<open>p\<close> bits, is
  rounded to at most \<open>1\<close>.\<close>

lemma powi_less_imp:
  assumes "(2::real) powi a < 2 powi b"
  shows "a < b"
proof (rule ccontr)
  assume "\<not> a < b"
  then have ba: "0 \<le> a - b" by simp
  have "(2::real) powi a = 2 powi b * 2 powi (a - b)"
    by (simp add: power_int_add[symmetric])
  moreover have "(1::real) \<le> 2 powi (a - b)" using ba by (intro one_le_power_int) simp_all
  ultimately have "(2::real) powi b * 1 \<le> 2 powi a"
    by (simp only:) (intro mult_left_mono, simp_all)
  with assms show False by simp
qed

lemma powi_split:
  assumes "0 \<le> a"
  shows "real_of_int (2 ^ nat a) * 2 powi e = 2 powi (a + e)"
proof -
  have "(2::real) powi a = 2 ^ nat a" using assms by (simp add: power_int_def)
  then show ?thesis by (simp add: power_int_add)
qed

lemma round_prec_le_bound:
  assumes b: "0 < b" "bitlen b \<le> int p" and x: "valof x \<le> valof (Fp b eb)"
  shows "valof (round_prec p x) \<le> valof (Fp b eb)"
proof (cases "bitlen \<bar>mant x\<bar> \<le> int p")
  case True
  then show ?thesis using x unfolding round_prec_def Let_def by simp
next
  case False
  define m where "m = mant x"
  define e where "e = expo x"
  define l where "l = bitlen \<bar>m\<bar>"
  define k where "k = nat (l - int p)"
  have lp: "int p < l" using False by (simp add: l_def m_def)
  have r: "round_prec p x = Fp (sgn m * rne_div \<bar>m\<bar> (2 ^ k)) (e + int k)"
    using False unfolding round_prec_def Let_def m_def e_def l_def k_def by simp
  have B0: "0 \<le> valof (Fp b eb)" using b(1) by (intro valof_nonneg) simp
  show ?thesis
  proof (cases "m \<le> 0")
    case True
    have "0 \<le> rne_div \<bar>m\<bar> (2 ^ k)" by (rule rne_div_nonneg) simp_all
    with True have "sgn m * rne_div \<bar>m\<bar> (2 ^ k) \<le> 0" by (simp add: sgn_if mult_le_0_iff)
    then have "valof (round_prec p x) \<le> 0" unfolding r by (intro valof_nonpos) simp
    then show ?thesis using B0 by simp
  next
    case False
    then have m0: "0 < m" by simp
    then have am: "\<bar>m\<bar> = m" "sgn m = 1" by simp_all
    have bl: "2 ^ nat (l - 1) \<le> m" using bitlen_bounds[OF m0] by (simp add: l_def am)
    have l1: "1 \<le> l" using lp by simp
    have bp: "b < 2 ^ p" using b(2) bitlen_le_iff_power[of b p] by simp
    have xv: "real_of_int m * 2 powi e \<le> real_of_int b * 2 powi eb"
      using x by (simp add: valof_def m_def e_def)
    have "(2::real) powi (l - 1 + e) = real_of_int (2 ^ nat (l - 1)) * 2 powi e"
      using l1 by (intro powi_split[symmetric]) simp
    also have "\<dots> \<le> real_of_int m * 2 powi e"
    proof -
      have "real_of_int (2 ^ nat (l - 1)) \<le> real_of_int m" using bl by (simp only: of_int_le_iff)
      then show ?thesis by (intro mult_right_mono) simp_all
    qed
    also have "\<dots> \<le> real_of_int b * 2 powi eb" by (rule xv)
    also have "\<dots> < 2 ^ p * 2 powi eb"
    proof -
      have "real_of_int b < real_of_int (2 ^ p)" using bp by (simp only: of_int_less_iff)
      then show ?thesis by (intro mult_strict_right_mono) simp_all
    qed
    also have "\<dots> = 2 powi (int p + eb)" by (simp add: power_int_add)
    finally have "l - 1 + e < int p + eb" by (rule powi_less_imp)
    then have ke: "e + int k \<le> eb" using lp unfolding k_def by simp
    define d where "d = nat (eb - (e + int k))"
    have eb: "eb = e + int k + int d" using ke by (simp add: d_def)
    have pe: "(2::real) powi eb = 2 ^ d * 2 ^ k * 2 powi e"
      unfolding eb by (simp add: power_int_add)
    have "real_of_int m * 2 powi e \<le> real_of_int (b * 2 ^ d * 2 ^ k) * 2 powi e"
      using xv unfolding pe by (simp add: mult.assoc)
    then have "real_of_int m \<le> real_of_int (b * 2 ^ d * 2 ^ k)"
      by (simp add: mult_le_cancel_right)
    then have mn: "m \<le> (b * 2 ^ d) * 2 ^ k" by (simp only: of_int_le_iff)
    then have rn: "rne_div m (2 ^ k) \<le> b * 2 ^ d" by (intro rne_div_le) simp_all
    have "valof (round_prec p x) = real_of_int (rne_div m (2 ^ k)) * 2 powi (e + int k)"
      unfolding r am valof_def by simp
    also have "\<dots> \<le> real_of_int (b * 2 ^ d) * 2 powi (e + int k)"
    proof -
      have "real_of_int (rne_div m (2 ^ k)) \<le> real_of_int (b * 2 ^ d)"
        using rn by (simp only: of_int_le_iff)
      then show ?thesis by (intro mult_right_mono) simp_all
    qed
    also have "\<dots> = valof (Fp b eb)"
      unfolding valof_def eb by (simp add: power_int_add)
    finally show ?thesis .
  qed
qed

lemma round_prec_le_1_tie:
  assumes p: "2 \<le> p" and x: "valof x \<le> 1 + 1 / 2 ^ p"
  shows "valof (round_prec p x) \<le> 1"
proof (cases "valof x \<le> 1")
  case True
  then show ?thesis using p by (intro round_prec_le_1) simp_all
next
  case False
  then have v1: "1 < valof x" by simp
  define m where "m = mant x"
  define e where "e = expo x"
  define l where "l = bitlen \<bar>m\<bar>"
  have v: "valof x = real_of_int m * 2 powi e" by (simp add: valof_def m_def e_def)
  have m0: "0 < m"
  proof (rule ccontr)
    assume "\<not> 0 < m"
    then have "valof x \<le> 0" by (intro valof_nonpos) (simp add: m_def)
    with v1 show False by simp
  qed
  then have am: "\<bar>m\<bar> = m" "sgn m = 1" by simp_all
  have bl: "2 ^ nat (l - 1) \<le> m" "m < 2 ^ nat l" using bitlen_bounds[OF m0] by (simp_all add: l_def am)
  have l1: "1 \<le> l"
  proof (rule ccontr)
    assume "\<not> 1 \<le> l"
    then have "nat l = 0" by simp
    with bl(2) have "m < 1" by simp
    with m0 show False by simp
  qed
  define n where "n = nat (l - 1)"
  have ln: "l = int n + 1" using l1 by (simp add: n_def)
  have nl: "nat l = Suc n" using l1 by (simp add: n_def)
  have "(2::real) powi 0 < real_of_int m * 2 powi e" using v1 unfolding v by simp
  also have "\<dots> < real_of_int (2 ^ nat l) * 2 powi e"
  proof -
    have "real_of_int m < real_of_int (2 ^ nat l)" using bl(2) by (simp only: of_int_less_iff)
    then show ?thesis by (intro mult_strict_right_mono) simp_all
  qed
  also have "\<dots> = 2 powi (l + e)" using l1 by (intro powi_split) simp
  finally have le0: "0 < l + e" by (rule powi_less_imp)
  have "(2::real) powi (l - 1 + e) = real_of_int (2 ^ nat (l - 1)) * 2 powi e"
    using l1 by (intro powi_split[symmetric]) simp
  also have "\<dots> \<le> real_of_int m * 2 powi e"
  proof -
    have "real_of_int (2 ^ nat (l - 1)) \<le> real_of_int m" using bl(1) by (simp only: of_int_le_iff)
    then show ?thesis by (intro mult_right_mono) simp_all
  qed
  also have "\<dots> \<le> 1 + 1 / 2 ^ p" using x unfolding v .
  also have "\<dots> < 2 powi 1"
  proof -
    have "(1::real) < 2 ^ p" using p by (intro one_less_power) simp_all
    then have "1 / (2::real) ^ p < 1" by simp
    then show ?thesis by simp
  qed
  finally have "l - 1 + e < 1" by (rule powi_less_imp)
  then have en: "e = - int n" using le0 ln by simp
  have pw: "(2::real) powi e = 1 / 2 ^ n" unfolding en by (simp add: power_int_minus field_simps)
  have "real_of_int m / 2 ^ n \<le> 1 + 1 / 2 ^ p" using x unfolding v pw by simp
  then have "real_of_int m * 2 ^ p \<le> 2 ^ n * 2 ^ p + 2 ^ n"
    by (simp add: field_simps)
  then have "real_of_int (m * 2 ^ p) \<le> real_of_int (2 ^ n * 2 ^ p + 2 ^ n)" by simp
  then have mi: "m * 2 ^ p \<le> 2 ^ n * 2 ^ p + 2 ^ n" by (simp only: of_int_le_iff)
  have mg: "2 ^ n < m"
  proof -
    have "1 < real_of_int m / 2 ^ n" using v1 unfolding v pw by simp
    then have "real_of_int (2 ^ n) < real_of_int m" by (simp add: field_simps)
    then show ?thesis by (simp only: of_int_less_iff)
  qed
  show ?thesis
  proof (cases "l \<le> int p")
    case True
    then have "n < p" using ln by simp
    then have "(2::int) ^ n < 2 ^ p" by simp
    then have "m * 2 ^ p < 2 ^ n * 2 ^ p + 2 ^ p" using mi by linarith
    then have "m * 2 ^ p < (2 ^ n + 1) * 2 ^ p" by (simp add: algebra_simps)
    then have "m < 2 ^ n + 1" by (simp add: mult_less_cancel_right)
    with mg show ?thesis by simp
  next
    case False
    define k where "k = nat (l - int p)"
    have lp: "int p < l" using False by simp
    have r: "round_prec p x = Fp (sgn m * rne_div \<bar>m\<bar> (2 ^ k)) (e + int k)"
      using False unfolding round_prec_def Let_def m_def e_def l_def k_def by simp
    have k1: "1 \<le> k" using lp by (simp add: k_def)
    have nk: "n = (k - 1) + p" "n = k + (p - 1)" using lp ln p k1 by (simp_all add: k_def)
    have "m * 2 ^ p \<le> 2 ^ (k + (p - 1)) * 2 ^ p + 2 ^ ((k - 1) + p)"
      using mi nk by simp
    also have "\<dots> = (2 ^ (p - 1) * 2 ^ k + 2 ^ (k - 1)) * 2 ^ p"
      by (simp add: power_add algebra_simps)
    finally have "m \<le> 2 ^ (p - 1) * 2 ^ k + 2 ^ (k - 1)" by (simp add: mult_le_cancel_right)
    then have "2 * m \<le> 2 * (2 ^ (p - 1) * 2 ^ k) + 2 * 2 ^ (k - 1)" by simp
    also have "2 * (2::int) ^ (k - 1) = 2 ^ k" using k1 by (cases k) simp_all
    finally have t: "2 * m \<le> 2 * 2 ^ (p - 1) * 2 ^ k + 2 ^ k" by simp
    have ev: "even ((2::int) ^ (p - 1))" using p by simp
    have rn: "rne_div m (2 ^ k) \<le> 2 ^ (p - 1)"
      by (rule rne_div_tie[OF _ ev t]) simp
    have ek: "e + int k = - int (p - 1)" using nk(2) p unfolding en by simp
    have "valof (round_prec p x) = real_of_int (rne_div m (2 ^ k)) / 2 ^ (p - 1)"
      unfolding r am ek valof_def by (simp add: power_int_minus field_simps)
    also have "\<dots> \<le> 1"
    proof -
      have "real_of_int (rne_div m (2 ^ k)) \<le> real_of_int (2 ^ (p - 1))"
        using rn by (simp only: of_int_le_iff)
      then show ?thesis by simp
    qed
    finally show ?thesis .
  qed
qed

text \<open>From below: a mantissa of more than \<open>p\<close> bits is rounded to one of at least
  \<open>2 ^ (p - 1)\<close>; so rounding never falls below a number of exactly \<open>p\<close> bits, a value above
  \<open>1 + 2 ^ - p\<close> is rounded to more than \<open>1\<close>, and a negative value stays negative.\<close>

lemma round_prec_pos_mant:
  assumes "0 < mant x" "\<not> bitlen \<bar>mant x\<bar> \<le> int p" "1 \<le> p"
  shows "round_prec p x = Fp (rne_div (mant x) (2 ^ nat (bitlen (mant x) - int p)))
                             (expo x + int (nat (bitlen (mant x) - int p)))"
    and "2 ^ (p - 1) \<le> rne_div (mant x) (2 ^ nat (bitlen (mant x) - int p))"
proof -
  define m where "m = mant x"
  define l where "l = bitlen m"
  define k where "k = nat (l - int p)"
  have m0: "0 < m" using assms(1) by (simp add: m_def)
  then have am: "\<bar>m\<bar> = m" "sgn m = 1" by simp_all
  have lp: "int p < l" using assms(2) by (simp add: l_def m_def am[unfolded m_def])
  show "round_prec p x = Fp (rne_div (mant x) (2 ^ nat (bitlen (mant x) - int p)))
                             (expo x + int (nat (bitlen (mant x) - int p)))"
    using assms(2) unfolding round_prec_def Let_def by (simp add: am[unfolded m_def])
  have bl: "2 ^ nat (l - 1) \<le> m" using bitlen_bounds[OF m0] by (simp add: l_def)
  have "nat (l - 1) = (p - 1) + k" using lp assms(3) by (simp add: k_def)
  then have "(2::int) ^ (p - 1) * 2 ^ k \<le> m" using bl by (simp add: power_add)
  then have "2 ^ (p - 1) \<le> rne_div m (2 ^ k)" by (intro rne_div_ge) simp_all
  then show "2 ^ (p - 1) \<le> rne_div (mant x) (2 ^ nat (bitlen (mant x) - int p))"
    unfolding m_def k_def l_def .
qed

lemma valof_pos_mant:
  assumes "0 < valof x"
  shows "0 < mant x"
proof (rule ccontr)
  assume "\<not> 0 < mant x"
  then have "valof x \<le> 0" by (intro valof_nonpos) simp
  with assms show False by simp
qed

lemma round_prec_ge_bound:
  assumes b: "2 ^ (p - 1) \<le> b" "b < 2 ^ p" and p: "1 \<le> p"
    and x: "valof (Fp b eb) \<le> valof x"
  shows "valof (Fp b eb) \<le> valof (round_prec p x)"
proof (cases "bitlen \<bar>mant x\<bar> \<le> int p")
  case True
  then show ?thesis using x unfolding round_prec_def Let_def by simp
next
  case False
  define m where "m = mant x"
  define e where "e = expo x"
  define l where "l = bitlen m"
  define k where "k = nat (l - int p)"
  define q where "q = rne_div m (2 ^ k)"
  have b0: "0 < b"
  proof -
    have "(0::int) < 2 ^ (p - 1)" by simp
    with b(1) show ?thesis by linarith
  qed
  have B0: "0 < valof (Fp b eb)" using b0 by (simp add: valof_def)
  have m0: "0 < m" unfolding m_def using B0 x by (intro valof_pos_mant) simp
  note R = round_prec_pos_mant[OF m0[unfolded m_def] False p,
      folded m_def l_def, folded k_def, folded q_def e_def]
  have lp: "int p < l" using False m0 by (simp add: l_def m_def)
  have l1: "1 \<le> l" using lp by simp
  have bl: "m < 2 ^ nat l" using bitlen_bounds[OF m0] by (simp add: l_def)
  have xv: "real_of_int b * 2 powi eb \<le> real_of_int m * 2 powi e"
    using x by (simp add: valof_def m_def e_def)
  have "(2::real) powi (int p - 1 + eb) = real_of_int (2 ^ nat (int p - 1)) * 2 powi eb"
    using p by (intro powi_split[symmetric]) simp
  also have "\<dots> \<le> real_of_int b * 2 powi eb"
  proof -
    have "nat (int p - 1) = p - 1" using p by simp
    then have "real_of_int (2 ^ nat (int p - 1)) \<le> real_of_int b"
      using b(1) by (simp only: of_int_le_iff)
    then show ?thesis by (intro mult_right_mono) simp_all
  qed
  also have "\<dots> \<le> real_of_int m * 2 powi e" by (rule xv)
  also have "\<dots> < real_of_int (2 ^ nat l) * 2 powi e"
  proof -
    have "real_of_int m < real_of_int (2 ^ nat l)" using bl by (simp only: of_int_less_iff)
    then show ?thesis by (intro mult_strict_right_mono) simp_all
  qed
  also have "\<dots> = 2 powi (l + e)" using l1 by (intro powi_split) simp
  finally have "int p - 1 + eb < l + e" by (rule powi_less_imp)
  then have ke: "eb \<le> e + int k" using lp unfolding k_def by simp
  have res: "valof (round_prec p x) = real_of_int q * 2 powi (e + int k)"
    unfolding R(1) valof_def by simp
  show ?thesis
  proof (cases "eb = e + int k")
    case True
    have pe: "(2::real) powi eb = real_of_int (2 ^ k) * 2 powi e"
      unfolding True using powi_split[of "int k" e] by (simp add: add.commute)
    have "real_of_int (b * 2 ^ k) * 2 powi e \<le> real_of_int m * 2 powi e"
      using xv unfolding pe by (simp add: mult.assoc)
    then have "real_of_int (b * 2 ^ k) \<le> real_of_int m"
      by (simp add: mult_le_cancel_right)
    then have "b * 2 ^ k \<le> m" by (simp only: of_int_le_iff)
    then have "b \<le> q" unfolding q_def by (intro rne_div_ge) simp_all
    then have "real_of_int b \<le> real_of_int q" by (simp only: of_int_le_iff)
    then have "real_of_int b * 2 powi eb \<le> real_of_int q * 2 powi eb"
      by (intro mult_right_mono) simp_all
    then show ?thesis unfolding res True[symmetric] by (simp add: valof_def)
  next
    case False
    then have lt: "eb + 1 \<le> e + int k" using ke by simp
    have "real_of_int b * 2 powi eb \<le> real_of_int (2 ^ p) * 2 powi eb"
    proof -
      have "b \<le> 2 ^ p" using b(2) by simp
      then have "real_of_int b \<le> real_of_int (2 ^ p)" by (simp only: of_int_le_iff)
      then show ?thesis by (intro mult_right_mono) simp_all
    qed
    also have "\<dots> = real_of_int (2 ^ (p - 1)) * 2 powi (eb + 1)"
      using p by (cases p) (simp_all add: power_int_add)
    also have "\<dots> \<le> real_of_int (2 ^ (p - 1)) * 2 powi (e + int k)"
    proof -
      have "(2::real) powi (e + int k) = 2 powi (eb + 1) * 2 powi (e + int k - (eb + 1))"
        by (simp add: power_int_add[symmetric])
      moreover have "(1::real) \<le> 2 powi (e + int k - (eb + 1))"
        using lt by (intro one_le_power_int) simp_all
      ultimately have "(2::real) powi (eb + 1) * 1 \<le> 2 powi (e + int k)"
        by (simp only:) (intro mult_left_mono, simp_all)
      then show ?thesis by (intro mult_left_mono) simp_all
    qed
    also have "\<dots> \<le> real_of_int q * 2 powi (e + int k)"
    proof -
      have "real_of_int (2 ^ (p - 1)) \<le> real_of_int q" using R(2) by (simp only: of_int_le_iff)
      then show ?thesis by (intro mult_right_mono) simp_all
    qed
    finally show ?thesis unfolding res by (simp add: valof_def)
  qed
qed

lemma round_prec_gt_1:
  assumes p: "1 \<le> p" and x: "1 + 1 / 2 ^ p < valof x"
  shows "1 < valof (round_prec p x)"
proof (cases "bitlen \<bar>mant x\<bar> \<le> int p")
  case True
  have "(0::real) < 1 / 2 ^ p" by simp
  then have "1 < valof x" using x by linarith
  then show ?thesis using True unfolding round_prec_def Let_def by simp
next
  case False
  define m where "m = mant x"
  define e where "e = expo x"
  define l where "l = bitlen m"
  define k where "k = nat (l - int p)"
  define q where "q = rne_div m (2 ^ k)"
  have h: "(0::real) < 1 / 2 ^ p" by simp
  have v1: "1 < valof x" using x h by linarith
  have m0: "0 < m" unfolding m_def using v1 by (intro valof_pos_mant) simp
  note R = round_prec_pos_mant[OF m0[unfolded m_def] False p,
      folded m_def l_def, folded k_def, folded q_def e_def]
  have lp: "int p < l" using False m0 by (simp add: l_def m_def)
  have l1: "1 \<le> l" using lp by simp
  have k1: "1 \<le> k" using lp by (simp add: k_def)
  have bl: "m < 2 ^ nat l" using bitlen_bounds[OF m0] by (simp add: l_def)
  have v: "valof x = real_of_int m * 2 powi e" by (simp add: valof_def m_def e_def)
  have res: "valof (round_prec p x) = real_of_int q * 2 powi (e + int k)"
    unfolding R(1) valof_def by simp
  have "(2::real) powi 0 < real_of_int m * 2 powi e" using v1 unfolding v by simp
  also have "\<dots> < real_of_int (2 ^ nat l) * 2 powi e"
  proof -
    have "real_of_int m < real_of_int (2 ^ nat l)" using bl by (simp only: of_int_less_iff)
    then show ?thesis by (intro mult_strict_right_mono) simp_all
  qed
  also have "\<dots> = 2 powi (l + e)" using l1 by (intro powi_split) simp
  finally have le0: "0 < l + e" by (rule powi_less_imp)
  show ?thesis
  proof (cases "l + e = 1")
    case True
    define n where "n = nat (l - 1)"
    have en: "e = - int n" using True l1 by (simp add: n_def)
    have pw: "(2::real) powi e = 1 / 2 ^ n" unfolding en by (simp add: power_int_minus field_simps)
    have "1 + 1 / 2 ^ p < real_of_int m / 2 ^ n" using x unfolding v pw by simp
    then have "2 ^ n * 2 ^ p + 2 ^ n < real_of_int m * 2 ^ p"
      by (simp add: field_simps)
    then have "real_of_int (2 ^ n * 2 ^ p + 2 ^ n) < real_of_int (m * 2 ^ p)" by simp
    then have mi: "2 ^ n * 2 ^ p + 2 ^ n < m * 2 ^ p" by (simp only: of_int_less_iff)
    have nk: "n = (k - 1) + p" "n = k + (p - 1)" using lp p k1 by (simp_all add: k_def n_def)
    have "(2 ^ (p - 1) * 2 ^ k + 2 ^ (k - 1)) * 2 ^ p = (2::int) ^ (k + (p - 1)) * 2 ^ p + 2 ^ ((k - 1) + p)"
      by (simp add: power_add algebra_simps)
    also have "\<dots> < m * (2::int) ^ p" using mi nk by simp
    finally have "2 ^ (p - 1) * 2 ^ k + 2 ^ (k - 1) < m" by (simp add: mult_less_cancel_right)
    then have "2 * (2 ^ (p - 1) * 2 ^ k) + 2 * 2 ^ (k - 1) < 2 * m" by simp
    moreover have "2 * (2::int) ^ (k - 1) = 2 ^ k" using k1 by (cases k) simp_all
    ultimately have t: "2 * 2 ^ (p - 1) * 2 ^ k + 2 ^ k < 2 * m" by simp
    have rn: "2 ^ (p - 1) + 1 \<le> q" unfolding q_def
      by (rule rne_div_above_tie[OF _ t]) simp
    have ek: "e + int k = - int (p - 1)" using nk(2) p unfolding en by simp
    have "(1::real) < (2 ^ (p - 1) + 1) / 2 ^ (p - 1)" by (simp add: field_simps)
    also have "\<dots> \<le> real_of_int q / 2 ^ (p - 1)"
    proof -
      have "real_of_int (2 ^ (p - 1) + 1) \<le> real_of_int q" using rn by (simp only: of_int_le_iff)
      then show ?thesis by (simp add: divide_right_mono)
    qed
    also have "\<dots> = valof (round_prec p x)"
      unfolding res ek by (simp add: power_int_minus field_simps)
    finally show ?thesis .
  next
    case False
    then have "2 - int p \<le> e + int k" using le0 lp by (simp add: k_def)
    then have t0: "0 \<le> int p - 1 + (e + int k) - 1" by simp
    have np: "nat (int p - 1) = p - 1" using p by simp
    have "real_of_int (2 ^ nat (int p - 1)) * 2 powi (e + int k) = 2 powi (int p - 1 + (e + int k))"
      using p by (intro powi_split) simp
    also have "int p - 1 + (e + int k) = 1 + (int p - 1 + (e + int k) - 1)" by linarith
    also have "(2::real) powi (1 + (int p - 1 + (e + int k) - 1))
         = 2 * 2 powi (int p - 1 + (e + int k) - 1)"
      by (subst power_int_add) simp_all
    finally have eq: "real_of_int (2 ^ (p - 1)) * 2 powi (e + int k)
        = 2 * 2 powi (int p - 1 + (e + int k) - 1)" unfolding np .
    have "(1::real) \<le> 2 powi (int p - 1 + (e + int k) - 1)"
      using t0 by (intro one_le_power_int) simp_all
    then have "(2::real) \<le> real_of_int (2 ^ (p - 1)) * 2 powi (e + int k)"
      unfolding eq by simp
    also have "\<dots> \<le> real_of_int q * 2 powi (e + int k)"
    proof -
      have "real_of_int (2 ^ (p - 1)) \<le> real_of_int q" using R(2) by (simp only: of_int_le_iff)
      then show ?thesis by (intro mult_right_mono) simp_all
    qed
    finally show ?thesis unfolding res by simp
  qed
qed

lemma round_prec_neg:
  assumes "mant x < 0" "1 \<le> p"
  shows "valof (round_prec p x) < 0"
proof (cases "bitlen \<bar>mant x\<bar> \<le> int p")
  case True
  then show ?thesis using assms(1) unfolding round_prec_def Let_def
    by (simp add: valof_def mult_less_0_iff)
next
  case False
  define y where "y = Fp (- mant x) (expo x)"
  have y0: "0 < mant y" using assms(1) by (simp add: y_def)
  have ab: "\<bar>mant y\<bar> = \<bar>mant x\<bar>" by (simp add: y_def)
  have F: "\<not> bitlen \<bar>mant y\<bar> \<le> int p" using False unfolding ab .
  note R = round_prec_pos_mant[OF y0 F assms(2)]
  have "(0::int) < 2 ^ (p - 1)" by simp
  with R(2) have q: "0 < rne_div (mant y) (2 ^ nat (bitlen (mant y) - int p))" by linarith
  have my: "mant y = \<bar>mant x\<bar>" using assms(1) by (simp add: y_def)
  have "round_prec p x = Fp (- rne_div \<bar>mant x\<bar> (2 ^ nat (bitlen \<bar>mant x\<bar> - int p)))
           (expo x + int (nat (bitlen \<bar>mant x\<bar> - int p)))"
    using False assms(1) unfolding round_prec_def Let_def by simp
  then show ?thesis using q unfolding my by (simp add: valof_def mult_less_0_iff)
qed

lemma valof_product: "valof (Fp (mant x * mant y) (expo x + expo y)) = valof x * valof y"
  by (simp add: valof_def power_int_add)

lemma double_of_long_exact:
  assumes "\<bar>n\<bar> < 2 ^ 53"
  shows "double_of_long n = Fp n 0"
proof -
  have "bitlen \<bar>n\<bar> \<le> 53"
    using assms bitlen_le_iff_power[of "\<bar>n\<bar>" 53] by simp
  then show ?thesis
    unfolding double_of_long_def to_double_def round_prec_def Let_def by simp
qed

lemma scaled_value_in_unit:
  assumes "0 \<le> n" "n < 2 ^ 53" "0 \<le> mant c" "real_of_int n * valof c \<le> 1"
  shows "0 \<le> valof (to_float (dmul (double_of_long n) c))"
    and "valof (to_float (dmul (double_of_long n) c)) \<le> 1"
proof -
  have d: "double_of_long n = Fp n 0" using assms(1,2) by (intro double_of_long_exact) simp
  have v: "valof (Fp n 0) = real_of_int n" by (simp add: valof_def)
  have "0 \<le> mant (Fp (mant (Fp n 0) * mant c) (expo (Fp n 0) + expo c))"
    using assms(1,3) by simp
  then show "0 \<le> valof (to_float (dmul (double_of_long n) c))"
    unfolding d dmul_def to_double_def to_float_def
    by (intro valof_nonneg round_prec_nonneg)
  have "valof (Fp (mant (Fp n 0) * mant c) (expo (Fp n 0) + expo c)) \<le> 1"
    unfolding valof_product v using assms(4) .
  then show "valof (to_float (dmul (double_of_long n) c)) \<le> 1"
    unfolding d dmul_def to_double_def to_float_def
    by (intro round_prec_le_1) simp_all
qed

lemma scaled_value_nonneg:
  assumes "0 \<le> n" "n < 2 ^ 53" "0 \<le> mant c"
  shows "0 \<le> valof (to_float (dmul (double_of_long n) c))"
proof -
  have d: "double_of_long n = Fp n 0" using assms(1,2) by (intro double_of_long_exact) simp
  have "0 \<le> mant (Fp (mant (Fp n 0) * mant c) (expo (Fp n 0) + expo c))"
    using assms(1,3) by simp
  then show ?thesis
    unfolding d dmul_def to_double_def to_float_def
    by (intro valof_nonneg round_prec_nonneg)
qed

lemma scaled_value_below:
  assumes "0 \<le> n" "n < 2 ^ 53" "0 < b" "bitlen b \<le> 24"
    and "real_of_int n * valof c \<le> valof (Fp b eb)"
  shows "valof (to_float (dmul (double_of_long n) c)) \<le> valof (Fp b eb)"
proof -
  have d: "double_of_long n = Fp n 0" using assms(1,2) by (intro double_of_long_exact) simp
  have v: "valof (Fp n 0) = real_of_int n" by (simp add: valof_def)
  have b53: "bitlen b \<le> int 53" and b24: "bitlen b \<le> int 24" using assms(4) by simp_all
  have E: "valof (Fp (mant (Fp n 0) * mant c) (expo (Fp n 0) + expo c)) \<le> valof (Fp b eb)"
    unfolding valof_product v using assms(5) .
  have D: "valof (round_prec 53 (Fp (mant (Fp n 0) * mant c) (expo (Fp n 0) + expo c)))
        \<le> valof (Fp b eb)"
    by (rule round_prec_le_bound[OF assms(3) b53 E])
  show ?thesis
    unfolding d dmul_def to_double_def to_float_def
    by (rule round_prec_le_bound[OF assms(3) b24 D])
qed

lemma scaled_value_tie:
  assumes "0 \<le> n" "n < 2 ^ 53" "real_of_int n * valof c \<le> 1 + 1 / 2 ^ 24"
  shows "valof (to_float (dmul (double_of_long n) c)) \<le> 1"
proof -
  have d: "double_of_long n = Fp n 0" using assms(1,2) by (intro double_of_long_exact) simp
  have v: "valof (Fp n 0) = real_of_int n" by (simp add: valof_def)
  have b: "valof (Fp 16777217 (- 24)) = 1 + 1 / 2 ^ 24"
    by (simp add: valof_def power_int_minus)
  have bl: "bitlen 16777217 \<le> int 53" using bitlen_le_iff_power[of 16777217 53] by simp
  have E: "valof (Fp (mant (Fp n 0) * mant c) (expo (Fp n 0) + expo c)) \<le> valof (Fp 16777217 (- 24))"
    unfolding valof_product v b using assms(3) .
  have D: "valof (round_prec 53 (Fp (mant (Fp n 0) * mant c) (expo (Fp n 0) + expo c)))
        \<le> 1 + 1 / 2 ^ 24"
    using round_prec_le_bound[OF _ bl E] unfolding b by simp
  show ?thesis
    unfolding d dmul_def to_double_def to_float_def
    by (rule round_prec_le_1_tie[OF _ D]) simp
qed

lemma scaled_value_neg:
  assumes "n < 0" "- (2 ^ 53) < n" "0 < mant c"
  shows "valof (to_float (dmul (double_of_long n) c)) < 0"
proof -
  have d: "double_of_long n = Fp n 0" using assms(1,2) by (intro double_of_long_exact) simp
  have "mant (Fp (mant (Fp n 0) * mant c) (expo (Fp n 0) + expo c)) < 0"
    using assms(1,3) by (simp add: mult_less_0_iff)
  then have D: "valof (round_prec 53 (Fp (mant (Fp n 0) * mant c) (expo (Fp n 0) + expo c))) < 0"
    by (rule round_prec_neg) simp
  have "mant (round_prec 53 (Fp (mant (Fp n 0) * mant c) (expo (Fp n 0) + expo c))) < 0"
  proof (rule ccontr)
    assume "\<not> mant (round_prec 53 (Fp (mant (Fp n 0) * mant c) (expo (Fp n 0) + expo c))) < 0"
    then have "0 \<le> valof (round_prec 53 (Fp (mant (Fp n 0) * mant c) (expo (Fp n 0) + expo c)))"
      by (intro valof_nonneg) simp
    with D show False by simp
  qed
  then show ?thesis
    unfolding d dmul_def to_double_def to_float_def
    by (rule round_prec_neg) simp
qed


section \<open>The decomposition of Schrage beyond 31 bits\<close>

text \<open>\<open>Seed\<close> stores \<open>ABS( seed )\<close> in \<open>ix\<close> as it is, and a \<open>long\<close> of 64 bits holds more than the
  31 bits of the modulus.  For every \<open>0 \<le> ix < 2 ^ 63\<close> the code computes without overflow:
  with \<open>16807 * ix = k * 2 ^ 31 + w\<close> and \<open>0 \<le> w < 2 ^ 31\<close> it forms \<open>k + w\<close>, and subtracts the
  modulus once if the sum is not below it.\<close>

lemma schrage_code_wide:
  fixes x :: int
  assumes "0 \<le> x" "x < 2 ^ 63"
  shows "(let xhi = lshr x 16;
          xalo = lmul (land x 0xFFFF) A3;
          leftlo = lshr xalo 16;
          fhi = ladd (lmul xhi A3) leftlo;
          k = lshr fhi 15;
          ix1 = ladd (ladd (lsub (lsub xalo (lshl leftlo 16)) P3)
                           (lshl (lsub fhi (lshl k 15)) 16)) k
      in (if ix1 < 0 then ladd ix1 P3 else ix1))
     = (if 16807 * x div 2147483648 + 16807 * x mod 2147483648 < 2147483647
        then 16807 * x div 2147483648 + 16807 * x mod 2147483648
        else 16807 * x div 2147483648 + 16807 * x mod 2147483648 - 2147483647)"
proof -
  define xalo where "xalo = (x mod 65536) * 16807"
  define fhi where "fhi = (x div 65536) * 16807 + xalo div 65536"
  define K where "K = fhi div 32768"
  define W where "W = (fhi mod 32768) * 65536 + xalo mod 65536"
  have xlo: "0 \<le> x mod 65536" "x mod 65536 < 65536" by simp_all
  have xhi: "0 \<le> x div 65536" "x div 65536 < 140737488355328" using assms by auto
  have a0: "0 \<le> xalo" "xalo < 2 ^ 31" using xlo by (simp_all add: xalo_def)
  have ll: "0 \<le> xalo div 65536" "xalo div 65536 < 16807" using a0 xlo by (auto simp: xalo_def)
  have f0: "0 \<le> fhi" "fhi < 2 ^ 62" using xhi ll by (simp_all add: fhi_def)
  have k: "0 \<le> K" "K < 2 ^ 47" using f0 by (auto simp: K_def)
  have b1: "0 \<le> xalo mod 65536" "xalo mod 65536 < 65536" by simp_all
  have b2: "0 \<le> fhi mod 32768" "fhi mod 32768 < 32768" by simp_all
  have w: "0 \<le> W" "W < 2147483648" using b1 b2 by (simp_all add: W_def)
  have ax: "16807 * x = fhi * 65536 + xalo mod 65536"
  proof -
    have "16807 * x = 16807 * ((x div 65536) * 65536 + x mod 65536)" by simp
    also have "\<dots> = (x div 65536) * 16807 * 65536 + xalo" by (simp only: xalo_def algebra_simps)
    also have "xalo = (xalo div 65536) * 65536 + xalo mod 65536" by simp
    finally show ?thesis by (simp add: fhi_def algebra_simps)
  qed
  have "fhi * 65536 = (K * 32768 + fhi mod 32768) * 65536" by (simp add: K_def)
  then have "16807 * x = (K * 32768 + fhi mod 32768) * 65536 + xalo mod 65536"
    using ax by (simp only:)
  then have y: "16807 * x = 2147483648 * K + W" by (simp only: W_def algebra_simps)
  have yd: "16807 * x div 2147483648 = K"
    using w by (intro int_div_pos_eq[OF y]) simp_all
  have ym: "16807 * x mod 2147483648 = W"
    using w by (intro int_mod_pos_eq[OF y]) simp_all
  have lo: "xalo - (xalo div 65536) * 65536 = xalo mod 65536" by (simp add: minus_div_mult_eq_mod)
  have f15: "fhi - K * 32768 = fhi mod 32768" by (simp add: K_def minus_div_mult_eq_mod)
  have e1: "lshr x 16 = x div 65536" by (simp add: lshr_def drop_bit_eq_div)
  have e2: "lmul (land x 0xFFFF) A3 = xalo"
    using a0 by (simp add: land_def and_mask16 A3_def xalo_def lmul_def wrap_id)
  have e3: "lshr xalo 16 = xalo div 65536" by (simp add: lshr_def drop_bit_eq_div)
  have e4: "ladd (lmul (x div 65536) A3) (xalo div 65536) = fhi"
    using xhi ll by (simp add: lmul_def ladd_def A3_def wrap_id fhi_def)
  have e5: "lshr fhi 15 = K" by (simp add: lshr_def drop_bit_eq_div K_def)
  have e6: "lshl (xalo div 65536) 16 = (xalo div 65536) * 65536"
    using ll by (simp add: lshl_def push_bit_eq_mult wrap_id)
  have e7: "lsub xalo ((xalo div 65536) * 65536) = xalo mod 65536"
    using b1 by (simp add: lsub_def lo wrap_id)
  have e8: "lsub (xalo mod 65536) P3 = xalo mod 65536 - 2147483647"
    using b1 by (simp add: lsub_def P3_def wrap_id)
  have e9: "lshl K 15 = K * 32768"
    using k by (simp add: lshl_def push_bit_eq_mult wrap_id)
  have e10: "lsub fhi (K * 32768) = fhi mod 32768"
    using b2 by (simp add: lsub_def f15 wrap_id)
  have e11: "lshl (fhi mod 32768) 16 = (fhi mod 32768) * 65536"
    using b2 by (simp add: lshl_def push_bit_eq_mult wrap_id)
  have e12: "ladd (xalo mod 65536 - 2147483647) ((fhi mod 32768) * 65536) = W - 2147483647"
    using b1 b2 by (simp add: ladd_def wrap_id W_def)
  have e13: "ladd (W - 2147483647) K = K + W - 2147483647"
    using w k by (simp add: ladd_def wrap_id)
  have e14: "ladd (K + W - 2147483647) P3 = K + W"
    using w k by (simp add: ladd_def wrap_id P3_def)
  have fin: "(if K + W - 2147483647 < 0 then K + W else K + W - 2147483647)
           = (if K + W < 2147483647 then K + W else K + W - 2147483647)"
    by simp
  show ?thesis
    unfolding Let_def e1 e2 e3 e4 e5 e6 e7 e8 e9 e10 e11 e12 e13 e14 fin yd ym ..
qed

lemma RandGen_3_Eval_sum:
  assumes "0 \<le> ix g" "ix g < 2 ^ 63"
  shows "RandGen_3_Eval g =
     (to_float (dmul (double_of_long
         (if 16807 * ix g div 2147483648 + 16807 * ix g mod 2147483648 < 2147483647
          then 16807 * ix g div 2147483648 + 16807 * ix g mod 2147483648
          else 16807 * ix g div 2147483648 + 16807 * ix g mod 2147483648 - 2147483647))
        (double_lit 4656612875 (10 ^ 19))),
      g\<lparr>ix := (if 16807 * ix g div 2147483648 + 16807 * ix g mod 2147483648 < 2147483647
          then 16807 * ix g div 2147483648 + 16807 * ix g mod 2147483648
          else 16807 * ix g div 2147483648 + 16807 * ix g mod 2147483648 - 2147483647)\<rparr>)"
  using schrage_code_wide[OF assms] unfolding RandGen_3_Eval_def Let_def by simp

text \<open>The sum \<open>k + w\<close> is at most \<open>2 ^ 32 + 126\<close> for every \<open>ix\<close> below \<open>274390817991842\<close>.
  While \<open>k \<le> 2 ^ 31 + 127\<close> this follows from \<open>w < 2 ^ 31\<close>.  For \<open>k = 2 ^ 31 + j\<close> with
  \<open>128 \<le> j \<le> 213\<close> a larger sum needs a multiple of \<open>16807\<close> among the last \<open>j - 127\<close>
  numbers below \<open>(k + 1) * 2 ^ 31\<close>; the residues of \<open>(k + 1) * 2 ^ 31\<close> modulo \<open>16807\<close>
  show that the first such multiple is \<open>16807 * 274390817991842\<close>, at \<open>j = 213\<close>.\<close>

lemma schrage_block_residues:
  "\<forall>j\<in>set [128..213]. (1 \<le> (2838 + j) * 2837 mod 16807 \<and> (2838 + j) * 2837 mod 16807 \<le> j - 127
       \<longrightarrow> j = 213)"
  by code_simp

lemma schrage_block_multiple:
  fixes j t x :: int
  assumes "128 \<le> j" "j \<le> 213" "1 \<le> t" "t \<le> j - 127"
    and eq: "(2147483649 + j) * 2147483648 - t = 16807 * x"
  shows "274390817991842 \<le> x"
proof -
  have "((2147483649 + j) * 2147483648 - t) mod 16807 = 0" unfolding eq by simp
  then have "(2147483649 + j) * 2147483648 mod 16807 = t mod 16807"
    by (metis mod_eq_dvd_iff mod_0_imp_dvd)
  moreover have "t mod 16807 = t" using assms(1-4) by (intro mod_pos_pos_trivial) simp_all
  moreover have "(2147483649 + j) * 2147483648 mod 16807 = (2838 + j) * 2837 mod 16807"
  proof (rule mod_mult_cong)
    have "2147483649 + j = (2838 + j) + 127773 * 16807" by simp
    then show "(2147483649 + j) mod 16807 = (2838 + j) mod 16807"
      by (simp only: mod_mult_self1)
    show "(2147483648::int) mod 16807 = 2837 mod 16807" by simp
  qed
  ultimately have t: "t = (2838 + j) * 2837 mod 16807" by simp
  have "j \<in> {128..213}" using assms(1,2) by simp
  then have "j \<in> set [128..213]" by (simp only: set_upto)
  with schrage_block_residues assms(3,4) have j: "j = 213" unfolding t by blast
  have "t = 82" unfolding t j by simp
  with eq j show ?thesis by simp
qed

lemma schrage_sum_bound:
  fixes x :: int
  assumes "0 \<le> x" "x < 274390817991842"
  shows "0 \<le> 16807 * x div 2147483648 + 16807 * x mod 2147483648"
    and "16807 * x div 2147483648 + 16807 * x mod 2147483648 \<le> 4294967422"
proof -
  define k where "k = 16807 * x div 2147483648"
  define w where "w = 16807 * x mod 2147483648"
  have w: "0 \<le> w" "w < 2147483648" by (simp_all add: w_def)
  have k0: "0 \<le> k" using assms(1) by (simp add: k_def pos_imp_zdiv_nonneg_iff)
  have y: "16807 * x = k * 2147483648 + w" by (simp add: k_def w_def)
  show "0 \<le> 16807 * x div 2147483648 + 16807 * x mod 2147483648"
    using k0 w unfolding k_def w_def by simp
  have "k + w \<le> 4294967422"
  proof (rule ccontr)
    assume "\<not> k + w \<le> 4294967422"
    then have big: "4294967423 \<le> k + w" by simp
    have "k * 2147483648 \<le> 16807 * x" using y w by simp
    also have "\<dots> < 16807 * 274390817991842" using assms(2) by simp
    finally have "k < 2147483862" by simp
    then have j: "128 \<le> k - 2147483648" "k - 2147483648 \<le> 213" using big w by simp_all
    have t: "1 \<le> 2147483648 - w" "2147483648 - w \<le> (k - 2147483648) - 127"
      using big w by simp_all
    have "(2147483649 + (k - 2147483648)) * 2147483648 - (2147483648 - w) = 16807 * x"
      unfolding y by (simp add: algebra_simps)
    from schrage_block_multiple[OF j t this] assms(2) show False by simp
  qed
  then show "16807 * x div 2147483648 + 16807 * x mod 2147483648 \<le> 4294967422"
    unfolding k_def w_def .
qed


section \<open>The range of the values drawn\<close>

text \<open>An invariant of the scalar \<open>Eval\<close> holds after any number of draws, and a property
  of each value returned under the invariant holds of every value drawn.\<close>

lemma scalar_draws_invariant:
  assumes step: "\<And>g. I g \<Longrightarrow> I (snd (Eval g)) \<and> P (fst (Eval g))" and "I g"
  shows "I (snd (scalar_draws Eval n g)) \<and> (\<forall>x\<in>set (fst (scalar_draws Eval n g)). P x)"
  using assms(2)
proof (induction n arbitrary: g)
  case 0
  then show ?case by simp
next
  case (Suc n)
  have "I (snd (Eval g))" "P (fst (Eval g))" using step[OF Suc.prems] by simp_all
  then show ?case unfolding scalar_draws_Suc using Suc.IH[of "snd (Eval g)"] by simp
qed


lemma scale_3_value: "double_lit 4656612875 (10 ^ 19) = Fp 4503599629229928 (- 83)"
  unfolding double_lit_def Let_def by (simp add: rne_div_def compute_bitlen)

text \<open>Method 3: a sum \<open>k + w\<close> of at most \<open>2 ^ 32 + 126\<close> leaves \<open>ix \<le> 2 ^ 31 + 127\<close>, the product
  with \<open>4.656612875E-10\<close> is then at most \<open>1 + 2 ^ - 24\<close>, which the conversion to \<open>float\<close>
  rounds to at most \<open>1\<close>; and the new \<open>ix\<close> is one of those whose sum is as small again.\<close>

lemma RandGen_3_Eval_unit_wide:
  assumes "0 \<le> ix g" "ix g < 2 ^ 63"
    and "16807 * ix g div 2147483648 + 16807 * ix g mod 2147483648 \<le> 4294967422"
  shows "(0 \<le> ix (snd (RandGen_3_Eval g)) \<and> ix (snd (RandGen_3_Eval g)) < 2 ^ 63
        \<and> 16807 * ix (snd (RandGen_3_Eval g)) div 2147483648
            + 16807 * ix (snd (RandGen_3_Eval g)) mod 2147483648 \<le> 4294967422)
       \<and> (0 \<le> valof (fst (RandGen_3_Eval g)) \<and> valof (fst (RandGen_3_Eval g)) \<le> 1)"
proof -
  define v where "v = 16807 * ix g div 2147483648 + 16807 * ix g mod 2147483648"
  define n where "n = (if v < 2147483647 then v else v - 2147483647)"
  have "0 \<le> 16807 * ix g div 2147483648" using assms(1) by (simp add: pos_imp_zdiv_nonneg_iff)
  moreover have "0 \<le> 16807 * ix g mod 2147483648" by simp
  ultimately have v: "0 \<le> v" "v \<le> 4294967422" using assms(3) unfolding v_def by simp_all
  have n: "0 \<le> n" "n \<le> 2147483775" using v by (simp_all add: n_def)
  have n': "n < 274390817991842" "n < 2 ^ 63" using n(2) by simp_all
  have E: "RandGen_3_Eval g = (to_float (dmul (double_of_long n) (Fp 4503599629229928 (- 83))), g\<lparr>ix := n\<rparr>)"
    unfolding n_def v_def scale_3_value[symmetric] by (rule RandGen_3_Eval_sum[OF assms(1,2)])
  have "real_of_int n * valof (Fp 4503599629229928 (- 83)) \<le> real_of_int 2147483775 * valof (Fp 4503599629229928 (- 83))"
    using n(2) by (intro mult_right_mono valof_nonneg) simp_all
  also have "\<dots> \<le> 1 + 1 / 2 ^ 24" by (simp add: valof_def power_int_minus)
  finally have le: "real_of_int n * valof (Fp 4503599629229928 (- 83)) \<le> 1 + 1 / 2 ^ 24" .
  have n53: "n < 2 ^ 53" using n(2) by simp
  have "0 \<le> valof (to_float (dmul (double_of_long n) (Fp 4503599629229928 (- 83))))"
    by (rule scaled_value_nonneg[OF n(1) n53]) simp
  moreover have "valof (to_float (dmul (double_of_long n) (Fp 4503599629229928 (- 83)))) \<le> 1"
    by (rule scaled_value_tie[OF n(1) n53 le])
  ultimately show ?thesis
    unfolding E using n(1) n'(2) schrage_sum_bound(2)[OF n(1) n'(1)] by simp
qed

lemma RandGen_3_Seed_ix_wide:
  assumes "\<bar>s\<bar> < 2 ^ 63"
  shows "ix (RandGen_3_Seed s g) = \<bar>s\<bar>"
proof -
  have "ABS s = \<bar>s\<bar>" using assms by (intro ABS_abs) auto
  then show ?thesis by (simp add: RandGen_3_Seed_def)
qed


lemma scale_2_value: "double_lit 100010001 (10 ^ 12) = Fp 7379435573033745 (- 66)"
  unfolding double_lit_def Let_def by (simp add: rne_div_def compute_bitlen)

lemma RandGen_2_Eval_r:
  "gen_r (snd (RandGen_2_Eval g)) =
     ldiv (lrem (ladd (ladd (lmul (gen_r g) (gen_m (snd (RandGen_2_Eval g))))
                            (gen_i (snd (RandGen_2_Eval g))))
                      (gen_j (snd (RandGen_2_Eval g)))) 100000) 10"
  "fst (RandGen_2_Eval g) =
     to_float (dmul (double_of_long (gen_r (snd (RandGen_2_Eval g))))
                    (double_lit 100010001 (10 ^ 12)))"
  unfolding RandGen_2_Eval_def Let_def snd_conv fst_conv RandGen_2.simps by (rule refl)+

text \<open>Method 2: as long as the sum \<open>r * m + i + j\<close> fits a \<open>long\<close>, \<open>Eval\<close> leaves \<open>r\<close> in
  \<open>[0, 9999]\<close>; from then on the sum is small.  After \<open>Seed(s)\<close> the sum of the first
  \<open>Eval()\<close> is \<open>7 * |s| ^ 2 - 9840 * |s| - 110376\<close> (for \<open>|s| \<ge> 20000\<close>), which fits up to
  \<open>|s| = 1147878996\<close> and not beyond.\<close>

lemma RandGen_2_Eval_sum:
  assumes r: "0 \<le> gen_r g"
    and m: "0 \<le> gen_m g" "gen_m g \<le> 10 ^ 10"
    and i: "0 \<le> gen_i g" "gen_i g \<le> 2 * 10 ^ 10"
    and j: "0 \<le> gen_j g" "gen_j g \<le> 2 * 10 ^ 10"
    and s: "gen_r g * gen_m (snd (RandGen_2_Eval g)) + gen_i (snd (RandGen_2_Eval g))
              + gen_j (snd (RandGen_2_Eval g)) < 2 ^ 63"
  shows "(0 \<le> gen_r (snd (RandGen_2_Eval g)) \<and> gen_r (snd (RandGen_2_Eval g)) \<le> 9999
        \<and> 0 \<le> gen_m (snd (RandGen_2_Eval g)) \<and> gen_m (snd (RandGen_2_Eval g)) \<le> 10 ^ 10
        \<and> 0 \<le> gen_i (snd (RandGen_2_Eval g)) \<and> gen_i (snd (RandGen_2_Eval g)) \<le> 2 * 10 ^ 10
        \<and> 0 \<le> gen_j (snd (RandGen_2_Eval g)) \<and> gen_j (snd (RandGen_2_Eval g)) \<le> 2 * 10 ^ 10)
       \<and> (0 \<le> valof (fst (RandGen_2_Eval g)) \<and> valof (fst (RandGen_2_Eval g)) \<le> 1)"
proof -
  define m1 where "m1 = gen_m (snd (RandGen_2_Eval g))"
  define i1 where "i1 = gen_i (snd (RandGen_2_Eval g))"
  define j1 where "j1 = gen_j (snd (RandGen_2_Eval g))"
  define r1 where "r1 = gen_r (snd (RandGen_2_Eval g))"
  have am: "ladd (gen_m g) 7 = gen_m g + 7" "lsub (gen_m g + 7) 9871 = gen_m g + 7 - 9871"
    using m by (simp_all add: ladd_def lsub_def wrap_id)
  have ai: "ladd (gen_i g) 1907 = gen_i g + 1907" "lsub (gen_i g + 1907) 89989 = gen_i g + 1907 - 89989"
    using i by (simp_all add: ladd_def lsub_def wrap_id)
  have aj: "ladd (gen_j g) 73939 = gen_j g + 73939" "lsub (gen_j g + 73939) 96233 = gen_j g + 73939 - 96233"
    using j by (simp_all add: ladd_def lsub_def wrap_id)
  have m1: "0 \<le> m1" "m1 \<le> 10 ^ 10"
    using m unfolding m1_def RandGen_2_Eval_members am by simp_all
  have i1: "0 \<le> i1" "i1 \<le> 2 * 10 ^ 10"
    using i unfolding i1_def RandGen_2_Eval_members ai by simp_all
  have j1: "0 \<le> j1" "j1 \<le> 2 * 10 ^ 10"
    using j unfolding j1_def RandGen_2_Eval_members aj by simp_all
  have p0: "0 \<le> gen_r g * m1" using r m1(1) by simp
  have s': "gen_r g * m1 + i1 + j1 < 2 ^ 63" using s unfolding m1_def i1_def j1_def .
  have 1: "lmul (gen_r g) m1 = gen_r g * m1" using p0 s' i1 j1 by (intro lmul_id) simp_all
  have 2: "ladd (gen_r g * m1) i1 = gen_r g * m1 + i1" using p0 s' i1 j1 by (intro ladd_id) simp_all
  have 3: "ladd (gen_r g * m1 + i1) j1 = gen_r g * m1 + i1 + j1"
    using p0 s' i1 j1 by (intro ladd_id) simp_all
  define S where "S = gen_r g * m1 + i1 + j1"
  have S0: "0 \<le> S" using p0 i1 j1 by (simp add: S_def)
  have 4: "lrem S 100000 = S mod 100000" using S0 by (intro lrem_nonneg) simp_all
  have 5: "ldiv (S mod 100000) 10 = S mod 100000 div 10" by (intro ldiv_nonneg) simp_all
  have r1_eq: "r1 = S mod 100000 div 10"
    unfolding r1_def RandGen_2_Eval_r(1) m1_def[symmetric] i1_def[symmetric] j1_def[symmetric]
      1 2 3 S_def[symmetric] 4 5 ..
  have "S mod 100000 < 100000" "0 \<le> S mod 100000" by simp_all
  then have r1: "0 \<le> r1" "r1 \<le> 9999" unfolding r1_eq by simp_all
  have "real_of_int r1 * valof (Fp 7379435573033745 (- 66)) \<le> real_of_int 9999 * valof (Fp 7379435573033745 (- 66))"
    using r1(2) by (intro mult_right_mono valof_nonneg) simp_all
  also have "\<dots> \<le> 1" by (simp add: valof_def power_int_minus)
  finally have le: "real_of_int r1 * valof (Fp 7379435573033745 (- 66)) \<le> 1" .
  have "r1 < 2 ^ 53" using r1(2) by simp
  note V = scaled_value_in_unit[OF r1(1) this _ le]
  have F: "fst (RandGen_2_Eval g) = to_float (dmul (double_of_long r1) (Fp 7379435573033745 (- 66)))"
    unfolding RandGen_2_Eval_r(2) scale_2_value r1_def ..
  show ?thesis
    unfolding F using V m1 i1 j1 r1
    unfolding m1_def i1_def j1_def r1_def by simp
qed

lemma RandGen_2_sum_after_Eval:
  assumes r: "0 \<le> gen_r g" "gen_r g \<le> 9999"
    and m: "0 \<le> gen_m g" "gen_m g \<le> 10 ^ 10"
    and i: "0 \<le> gen_i g" "gen_i g \<le> 2 * 10 ^ 10"
    and j: "0 \<le> gen_j g" "gen_j g \<le> 2 * 10 ^ 10"
  shows "gen_r g * gen_m (snd (RandGen_2_Eval g)) + gen_i (snd (RandGen_2_Eval g))
              + gen_j (snd (RandGen_2_Eval g)) < 2 ^ 63"
proof -
  define m1 where "m1 = gen_m (snd (RandGen_2_Eval g))"
  define i1 where "i1 = gen_i (snd (RandGen_2_Eval g))"
  define j1 where "j1 = gen_j (snd (RandGen_2_Eval g))"
  have am: "ladd (gen_m g) 7 = gen_m g + 7" "lsub (gen_m g + 7) 9871 = gen_m g + 7 - 9871"
    using m by (simp_all add: ladd_def lsub_def wrap_id)
  have ai: "ladd (gen_i g) 1907 = gen_i g + 1907" "lsub (gen_i g + 1907) 89989 = gen_i g + 1907 - 89989"
    using i by (simp_all add: ladd_def lsub_def wrap_id)
  have aj: "ladd (gen_j g) 73939 = gen_j g + 73939" "lsub (gen_j g + 73939) 96233 = gen_j g + 73939 - 96233"
    using j by (simp_all add: ladd_def lsub_def wrap_id)
  have m1: "0 \<le> m1" "m1 \<le> 10 ^ 10"
    using m unfolding m1_def RandGen_2_Eval_members am by simp_all
  have i1: "0 \<le> i1" "i1 \<le> 2 * 10 ^ 10"
    using i unfolding i1_def RandGen_2_Eval_members ai by simp_all
  have j1: "0 \<le> j1" "j1 \<le> 2 * 10 ^ 10"
    using j unfolding j1_def RandGen_2_Eval_members aj by simp_all
  have "gen_r g * m1 \<le> 9999 * 10 ^ 10" using r m1 by (intro mult_mono) simp_all
  then show ?thesis using i1 j1 unfolding m1_def i1_def j1_def by simp
qed

lemma RandGen_2_Seed_members:
  assumes "13 * \<bar>s\<bar> < 2 ^ 63"
  shows "gen_r (RandGen_2_Seed s g) = \<bar>s\<bar>"
    and "gen_m (RandGen_2_Seed s g) = (if 7 * \<bar>s\<bar> < 100 then 7 * \<bar>s\<bar> + 100 else 7 * \<bar>s\<bar>)"
    and "gen_i (RandGen_2_Seed s g) = (if 11 * \<bar>s\<bar> < 10000 then 11 * \<bar>s\<bar> + 10000 else 11 * \<bar>s\<bar>)"
    and "gen_j (RandGen_2_Seed s g) = (if 13 * \<bar>s\<bar> < 128000 then 13 * \<bar>s\<bar> + 128000 else 13 * \<bar>s\<bar>)"
proof -
  have a: "ABS s = \<bar>s\<bar>" using assms by (intro ABS_abs) auto
  have m: "lmul s 7 = s * 7" using assms by (intro lmul_id) auto
  have i: "lmul s 11 = s * 11" using assms by (intro lmul_id) auto
  have j: "lmul s 13 = s * 13" using assms by (intro lmul_id) auto
  have am: "ABS (s * 7) = 7 * \<bar>s\<bar>" using assms by (subst ABS_abs) auto
  have ai: "ABS (s * 11) = 11 * \<bar>s\<bar>" using assms by (subst ABS_abs) auto
  have aj: "ABS (s * 13) = 13 * \<bar>s\<bar>" using assms by (subst ABS_abs) auto
  show "gen_r (RandGen_2_Seed s g) = \<bar>s\<bar>"
    by (simp add: RandGen_2_Seed_def Let_def a)
  show "gen_m (RandGen_2_Seed s g) = (if 7 * \<bar>s\<bar> < 100 then 7 * \<bar>s\<bar> + 100 else 7 * \<bar>s\<bar>)"
    using assms by (simp add: RandGen_2_Seed_def Let_def m am ladd_def wrap_id)
  show "gen_i (RandGen_2_Seed s g) = (if 11 * \<bar>s\<bar> < 10000 then 11 * \<bar>s\<bar> + 10000 else 11 * \<bar>s\<bar>)"
    using assms by (simp add: RandGen_2_Seed_def Let_def i ai ladd_def wrap_id)
  show "gen_j (RandGen_2_Seed s g) = (if 13 * \<bar>s\<bar> < 128000 then 13 * \<bar>s\<bar> + 128000 else 13 * \<bar>s\<bar>)"
    using assms by (simp add: RandGen_2_Seed_def Let_def j aj ladd_def wrap_id)
qed

lemma RandGen_2_Seed_sum:
  assumes "\<bar>s\<bar> \<le> 1147878996"
  shows "0 \<le> gen_r (RandGen_2_Seed s g)
       \<and> 0 \<le> gen_m (RandGen_2_Seed s g) \<and> gen_m (RandGen_2_Seed s g) \<le> 10 ^ 10
       \<and> 0 \<le> gen_i (RandGen_2_Seed s g) \<and> gen_i (RandGen_2_Seed s g) \<le> 2 * 10 ^ 10
       \<and> 0 \<le> gen_j (RandGen_2_Seed s g) \<and> gen_j (RandGen_2_Seed s g) \<le> 2 * 10 ^ 10
       \<and> gen_r (RandGen_2_Seed s g) * gen_m (snd (RandGen_2_Eval (RandGen_2_Seed s g)))
            + gen_i (snd (RandGen_2_Eval (RandGen_2_Seed s g)))
            + gen_j (snd (RandGen_2_Eval (RandGen_2_Seed s g))) < 2 ^ 63"
proof -
  define a where "a = \<bar>s\<bar>"
  define h where "h = RandGen_2_Seed s g"
  have a: "0 \<le> a" "a \<le> 1147878996" using assms by (simp_all add: a_def)
  have "13 * \<bar>s\<bar> < 2 ^ 63" using assms by simp
  note M = RandGen_2_Seed_members[OF this, of g, folded a_def h_def]
  have r: "gen_r h = a" by (rule M(1))
  have m: "0 \<le> gen_m h" "gen_m h \<le> 10 ^ 10" using a unfolding M(2) by simp_all
  have i: "0 \<le> gen_i h" "gen_i h \<le> 2 * 10 ^ 10" using a unfolding M(3) by simp_all
  have j: "0 \<le> gen_j h" "gen_j h \<le> 2 * 10 ^ 10" using a unfolding M(4) by simp_all
  have am: "ladd (gen_m h) 7 = gen_m h + 7" "lsub (gen_m h + 7) 9871 = gen_m h + 7 - 9871"
    using m by (simp_all add: ladd_def lsub_def wrap_id)
  have ai: "ladd (gen_i h) 1907 = gen_i h + 1907" "lsub (gen_i h + 1907) 89989 = gen_i h + 1907 - 89989"
    using i by (simp_all add: ladd_def lsub_def wrap_id)
  have aj: "ladd (gen_j h) 73939 = gen_j h + 73939" "lsub (gen_j h + 73939) 96233 = gen_j h + 73939 - 96233"
    using j by (simp_all add: ladd_def lsub_def wrap_id)
  have mm: "gen_m (snd (RandGen_2_Eval h)) =
      (if 9973 \<le> gen_m h + 7 then gen_m h + 7 - 9871 else gen_m h + 7)"
    unfolding RandGen_2_Eval_members am ..
  have ii: "gen_i (snd (RandGen_2_Eval h)) =
      (if 99991 \<le> gen_i h + 1907 then gen_i h + 1907 - 89989 else gen_i h + 1907)"
    unfolding RandGen_2_Eval_members ai ..
  have jj: "gen_j (snd (RandGen_2_Eval h)) =
      (if 224729 \<le> gen_j h + 73939 then gen_j h + 73939 - 96233 else gen_j h + 73939)"
    unfolding RandGen_2_Eval_members aj ..
  have sum: "a * gen_m (snd (RandGen_2_Eval h)) + gen_i (snd (RandGen_2_Eval h))
            + gen_j (snd (RandGen_2_Eval h)) < 2 ^ 63"
  proof (cases "a < 20000")
    case True
    have m1: "0 \<le> gen_m (snd (RandGen_2_Eval h))" "gen_m (snd (RandGen_2_Eval h)) \<le> 140107"
      using a True unfolding mm M(2) by simp_all
    have i1: "gen_i (snd (RandGen_2_Eval h)) \<le> 231907"
      using a True unfolding ii M(3) by simp
    have j1: "gen_j (snd (RandGen_2_Eval h)) \<le> 461939"
      using a True unfolding jj M(4) by simp
    have "a * gen_m (snd (RandGen_2_Eval h)) \<le> 20000 * 140107"
      using a True m1 by (intro mult_mono) simp_all
    then show ?thesis using i1 j1 by simp
  next
    case False
    then have a2: "20000 \<le> a" by simp
    have m1: "gen_m (snd (RandGen_2_Eval h)) = 7 * a - 9864"
      using a2 unfolding mm M(2) by simp
    have i1: "gen_i (snd (RandGen_2_Eval h)) = 11 * a - 88082"
      using a2 unfolding ii M(3) by simp
    have j1: "gen_j (snd (RandGen_2_Eval h)) = 13 * a - 22294"
      using a2 unfolding jj M(4) by simp
    have "a * (7 * a - 9840) \<le> 1147878996 * (7 * 1147878996 - 9840)"
      using a a2 by (intro mult_mono) simp_all
    then have "a * (7 * a - 9840) \<le> 9223372031076455472" by simp
    moreover have "a * (7 * a - 9864) + (11 * a - 88082) + (13 * a - 22294)
        = a * (7 * a - 9840) - 110376" by (simp add: algebra_simps)
    ultimately show ?thesis unfolding m1 i1 j1 by simp
  qed
  show ?thesis
    unfolding h_def[symmetric] using a(1) m i j sum unfolding r by simp
qed

lemma RandGen_2_Seed_overflows:
  assumes "1147878997 \<le> \<bar>s\<bar>" "13 * \<bar>s\<bar> + 73939 < 2 ^ 63"
  shows "2 ^ 63 \<le> gen_r (RandGen_2_Seed s g) * gen_m (snd (RandGen_2_Eval (RandGen_2_Seed s g)))
            + gen_i (snd (RandGen_2_Eval (RandGen_2_Seed s g)))
            + gen_j (snd (RandGen_2_Eval (RandGen_2_Seed s g)))"
proof -
  define a where "a = \<bar>s\<bar>"
  define h where "h = RandGen_2_Seed s g"
  have a: "1147878997 \<le> a" "13 * a + 73939 < 2 ^ 63" using assms by (simp_all add: a_def)
  have "13 * \<bar>s\<bar> < 2 ^ 63" using assms(2) by simp
  note M = RandGen_2_Seed_members[OF this, of g, folded a_def h_def]
  have m: "gen_m h = 7 * a" using a unfolding M(2) by simp
  have i: "gen_i h = 11 * a" using a unfolding M(3) by simp
  have j: "gen_j h = 13 * a" using a unfolding M(4) by simp
  have am: "ladd (7 * a) 7 = 7 * a + 7" "lsub (7 * a + 7) 9871 = 7 * a + 7 - 9871"
    using a by (simp_all add: ladd_def lsub_def wrap_id)
  have ai: "ladd (11 * a) 1907 = 11 * a + 1907" "lsub (11 * a + 1907) 89989 = 11 * a + 1907 - 89989"
    using a by (simp_all add: ladd_def lsub_def wrap_id)
  have aj: "ladd (13 * a) 73939 = 13 * a + 73939" "lsub (13 * a + 73939) 96233 = 13 * a + 73939 - 96233"
    using a by (simp_all add: ladd_def lsub_def wrap_id)
  have m1: "gen_m (snd (RandGen_2_Eval h)) = 7 * a - 9864"
    using a unfolding RandGen_2_Eval_members m am by simp
  have i1: "gen_i (snd (RandGen_2_Eval h)) = 11 * a - 88082"
    using a unfolding RandGen_2_Eval_members i ai by simp
  have j1: "gen_j (snd (RandGen_2_Eval h)) = 13 * a - 22294"
    using a unfolding RandGen_2_Eval_members j aj by simp
  have "1147878997 * (7 * 1147878997 - 9840) \<le> a * (7 * a - 9840)"
    using a by (intro mult_mono) simp_all
  then have "9223372047146751583 \<le> a * (7 * a - 9840)" by simp
  moreover have "a * (7 * a - 9864) + (11 * a - 88082) + (13 * a - 22294)
        = a * (7 * a - 9840) - 110376" by (simp add: algebra_simps)
  ultimately show ?thesis
    unfolding h_def[symmetric] M(1) m1 i1 j1 by simp
qed


lemma RandGen_1_Eval_unit:
  assumes len: "length (shuffle g) = 98"
    and sd: "0 \<le> seed g" "seed g < M1"
    and ix: "0 \<le> index g" "index g < M1"
    and tb: "\<forall>k. 1 \<le> k \<and> k \<le> 97 \<longrightarrow> 0 \<le> shuffle g ! k \<and> shuffle g ! k < M1"
  shows "(length (shuffle (snd (RandGen_1_Eval g))) = 98
        \<and> 0 \<le> seed (snd (RandGen_1_Eval g)) \<and> seed (snd (RandGen_1_Eval g)) < M1
        \<and> 0 \<le> index (snd (RandGen_1_Eval g)) \<and> index (snd (RandGen_1_Eval g)) < M1
        \<and> (\<forall>k. 1 \<le> k \<and> k \<le> 97 \<longrightarrow>
               0 \<le> shuffle (snd (RandGen_1_Eval g)) ! k \<and> shuffle (snd (RandGen_1_Eval g)) ! k < M1))
       \<and> (0 \<le> valof (fst (RandGen_1_Eval g)) \<and> valof (fst (RandGen_1_Eval g)) \<le> 1)"
proof -
  define off where "off = nat (1 + 97 * index g div M1)"
  define new where "new = (IA * seed g + IC) mod M1"
  have b: "0 \<le> 97 * index g" "97 * index g < 97 * 714025" using ix by (simp_all add: M1_def)
  then have d: "0 \<le> 97 * index g div M1" "97 * index g div M1 < 97"
    by (simp_all add: M1_def pos_imp_zdiv_nonneg_iff)
  then have off: "1 \<le> off" "off \<le> 97" by (simp_all add: off_def)
  have new: "0 \<le> new" "new < M1" by (simp_all add: new_def M1_def)
  have E: "RandGen_1_Eval g =
       (to_float (dmul (double_of_long (shuffle g ! off)) RM),
        g\<lparr>index := shuffle g ! off, seed := new, shuffle := (shuffle g)[off := new]\<rparr>)"
    unfolding off_def new_def lcg_step_nonneg[OF sd, symmetric]
    by (rule RandGen_1_Eval_index_small[OF ix])
  have el: "0 \<le> shuffle g ! off" "shuffle g ! off < M1" using tb off by simp_all
  have tb': "0 \<le> (shuffle g)[off := new] ! k \<and> (shuffle g)[off := new] ! k < M1"
    if "1 \<le> k" "k \<le> 97" for k
    using that tb new len by (cases "k = off") simp_all
  have "real_of_int (shuffle g ! off) * valof RM \<le> real_of_int 714024 * valof RM"
    using el(2) by (intro mult_right_mono valof_nonneg) (simp_all add: M1_def RM_value)
  also have "\<dots> \<le> 1" by (simp add: RM_value valof_def power_int_minus)
  finally have le: "real_of_int (shuffle g ! off) * valof RM \<le> 1" .
  have "shuffle g ! off < 2 ^ 53" using el(2) by (simp add: M1_def)
  from scaled_value_in_unit[OF el(1) this _ le]
  have V: "0 \<le> valof (to_float (dmul (double_of_long (shuffle g ! off)) RM))"
          "valof (to_float (dmul (double_of_long (shuffle g ! off)) RM)) \<le> 1"
    by (simp_all add: RM_value)
  show ?thesis
    unfolding E using V el new tb' len by simp
qed

text \<open>Method 1: the largest table entry is \<open>714024\<close>, and \<open>714024 * RM\<close> lies below
  \<open>1 - 2 ^ - 24\<close>, the largest \<open>float\<close> below \<open>1\<close>.  The member \<open>seed\<close> enters the table only
  through the update \<open>(IA * seed + IC) % M1\<close>, which is in \<open>[0, M1)\<close> from the second update
  on if the first one is.\<close>

lemma lcg_step_wide:
  assumes "- (2 ^ 63) \<le> IA * t" "IA * t + IC < 2 ^ 63"
  shows "lrem (ladd (lmul IA t) IC) M1 = lrem (IA * t + IC) M1"
proof -
  have b: "IA * t < 2 ^ 63" "- (2 ^ 63) \<le> IA * t + IC" using assms by (simp_all add: IC_def)
  have 1: "lmul IA t = IA * t" using assms(1) b(1) by (intro lmul_id)
  have 2: "ladd (IA * t) IC = IA * t + IC" using assms(2) b(2) by (intro ladd_id)
  show ?thesis unfolding 1 2 ..
qed

lemma RandGen_1_Eval_half_open:
  assumes len: "length (shuffle g) = 98"
    and sd: "- (2 ^ 63) \<le> IA * seed g" "IA * seed g + IC < 2 ^ 63"
            "0 \<le> lrem (IA * seed g + IC) M1"
    and ix: "0 \<le> index g" "index g < M1"
    and tb: "\<forall>k. 1 \<le> k \<and> k \<le> 97 \<longrightarrow> 0 \<le> shuffle g ! k \<and> shuffle g ! k < M1"
  shows "(length (shuffle (snd (RandGen_1_Eval g))) = 98
        \<and> - (2 ^ 63) \<le> IA * seed (snd (RandGen_1_Eval g))
        \<and> IA * seed (snd (RandGen_1_Eval g)) + IC < 2 ^ 63
        \<and> 0 \<le> lrem (IA * seed (snd (RandGen_1_Eval g)) + IC) M1
        \<and> 0 \<le> index (snd (RandGen_1_Eval g)) \<and> index (snd (RandGen_1_Eval g)) < M1
        \<and> (\<forall>k. 1 \<le> k \<and> k \<le> 97 \<longrightarrow>
               0 \<le> shuffle (snd (RandGen_1_Eval g)) ! k \<and> shuffle (snd (RandGen_1_Eval g)) ! k < M1))
       \<and> (0 \<le> valof (fst (RandGen_1_Eval g)) \<and> valof (fst (RandGen_1_Eval g)) < 1)"
proof -
  define off where "off = nat (1 + 97 * index g div M1)"
  define new where "new = lrem (IA * seed g + IC) M1"
  have b: "0 \<le> 97 * index g" "97 * index g < 97 * 714025" using ix by (simp_all add: M1_def)
  then have d: "0 \<le> 97 * index g div M1" "97 * index g div M1 < 97"
    by (simp_all add: M1_def pos_imp_zdiv_nonneg_iff)
  then have off: "1 \<le> off" "off \<le> 97" by (simp_all add: off_def)
  have new: "0 \<le> new" "new < M1" using sd(3) lrem_M1_bounded(2) by (simp_all add: new_def)
  have n1: "- (2 ^ 63) \<le> IA * new" "IA * new + IC < 2 ^ 63" "0 \<le> IA * new + IC"
    using new by (simp_all add: IA_def IC_def M1_def)
  have n2: "0 \<le> lrem (IA * new + IC) M1"
    using n1(3) by (subst lrem_nonneg) (simp_all add: M1_def)
  have E: "RandGen_1_Eval g =
       (to_float (dmul (double_of_long (shuffle g ! off)) RM),
        g\<lparr>index := shuffle g ! off, seed := new, shuffle := (shuffle g)[off := new]\<rparr>)"
    unfolding off_def new_def lcg_step_wide[OF sd(1,2), symmetric]
    by (rule RandGen_1_Eval_index_small[OF ix])
  have el: "0 \<le> shuffle g ! off" "shuffle g ! off < M1" using tb off by simp_all
  have tb': "0 \<le> (shuffle g)[off := new] ! k \<and> (shuffle g)[off := new] ! k < M1"
    if "1 \<le> k" "k \<le> 97" for k
    using that tb new len by (cases "k = off") simp_all
  have "real_of_int (shuffle g ! off) * valof RM \<le> real_of_int 714024 * valof RM"
    using el(2) by (intro mult_right_mono valof_nonneg) (simp_all add: M1_def RM_value)
  also have "\<dots> \<le> valof (Fp 16777215 (- 24))" by (simp add: RM_value valof_def power_int_minus)
  finally have le: "real_of_int (shuffle g ! off) * valof RM \<le> valof (Fp 16777215 (- 24))" .
  have e53: "shuffle g ! off < 2 ^ 53" using el(2) by (simp add: M1_def)
  have bl: "bitlen 16777215 \<le> 24" using bitlen_le_iff_power[of 16777215 24] by simp
  have "valof (to_float (dmul (double_of_long (shuffle g ! off)) RM)) \<le> valof (Fp 16777215 (- 24))"
    by (rule scaled_value_below[OF el(1) e53 _ bl le]) simp
  also have "\<dots> < 1" by (simp add: valof_def power_int_minus)
  finally have V1: "valof (to_float (dmul (double_of_long (shuffle g ! off)) RM)) < 1" .
  have V0: "0 \<le> valof (to_float (dmul (double_of_long (shuffle g ! off)) RM))"
    by (rule scaled_value_nonneg[OF el(1) e53]) (simp add: RM_value)
  show ?thesis
    unfolding E using V0 V1 el new n1(1,2) n2 tb' len by simp
qed


lemma RandGen_1_Eval_array_draws:
  "RandGen_1_Eval_array n g = scalar_draws RandGen_1_Eval (nat n) g"
  by (simp add: RandGen_1_Eval_array_def RandGen_1_Eval_array_loop_eq split: prod.splits)

lemma RandGen_2_Eval_array_draws:
  "RandGen_2_Eval_array n g = scalar_draws RandGen_2_Eval (nat n) g"
  by (simp add: RandGen_2_Eval_array_def RandGen_2_Eval_array_loop_eq split: prod.splits)

lemma RandGen_3_Eval_array_draws:
  "RandGen_3_Eval_array n g = scalar_draws RandGen_3_Eval (nat n) g"
  by (simp add: RandGen_3_Eval_array_def RandGen_3_Eval_array_loop_eq split: prod.splits)

text \<open>What holds of the table of Method 1: it is non-negative after \<open>Seed\<close>, and stays
  so as long as the member \<open>seed\<close> held a value of \<open>[0, M1)\<close> when the generator was
  seeded.\<close>

lemma RandGen_1_Seed_table_nonneg:
  assumes "length (shuffle g) = 98" "1 \<le> k" "k \<le> 97"
  shows "0 \<le> shuffle (RandGen_1_Seed s g) ! k"
  using RandGen_1_Seed_invariant_any_seed[OF assms(1), of s] assms(2,3) by simp

lemma RandGen_1_table_stays_nonneg:
  assumes "length (shuffle g) = 98" "0 \<le> seed g" "seed g < M1"
    and "1 \<le> k" "k \<le> 97"
  shows "0 \<le> shuffle (snd (scalar_draws RandGen_1_Eval n (RandGen_1_Seed s g))) ! k"
proof -
  define I where "I = (\<lambda>g::RandGen_1. length (shuffle g) = 98
        \<and> 0 \<le> seed g \<and> seed g < M1 \<and> 0 \<le> index g \<and> index g < M1
        \<and> (\<forall>k. 1 \<le> k \<and> k \<le> 97 \<longrightarrow> 0 \<le> shuffle g ! k \<and> shuffle g ! k < M1))"
  have step: "I g \<Longrightarrow> I (snd (RandGen_1_Eval g)) \<and> True" for g :: RandGen_1
    unfolding I_def using RandGen_1_Eval_unit[of g] by simp
  have I0: "I (RandGen_1_Seed s g)"
    unfolding I_def using RandGen_1_Seed_invariant_any_seed[OF assms(1), of s] assms(2,3) by simp
  have "I (snd (scalar_draws RandGen_1_Eval n (RandGen_1_Seed s g)))"
    using scalar_draws_invariant[of I RandGen_1_Eval "\<lambda>x. True", OF step I0] by simp
  then show ?thesis unfolding I_def using assms(4,5) by simp
qed

lemma RandGen_1_values_half_open:
  assumes "length (shuffle g) = 98" "- (2 ^ 63) \<le> IA * seed g" "IA * seed g + IC < 2 ^ 63"
    "0 \<le> lrem (IA * seed g + IC) M1"
  shows "in_unit_half_open (fst (RandGen_1_Eval (snd (scalar_draws RandGen_1_Eval k (RandGen_1_Seed s g)))))"
    and "\<forall>x\<in>set (fst (RandGen_1_Eval_array n (snd (scalar_draws RandGen_1_Eval k (RandGen_1_Seed s g))))).
           in_unit_half_open x"
proof -
  define I where "I = (\<lambda>g::RandGen_1. length (shuffle g) = 98
        \<and> - (2 ^ 63) \<le> IA * seed g \<and> IA * seed g + IC < 2 ^ 63
        \<and> 0 \<le> lrem (IA * seed g + IC) M1 \<and> 0 \<le> index g \<and> index g < M1
        \<and> (\<forall>k. 1 \<le> k \<and> k \<le> 97 \<longrightarrow> 0 \<le> shuffle g ! k \<and> shuffle g ! k < M1))"
  have step: "I g \<Longrightarrow> I (snd (RandGen_1_Eval g)) \<and> in_unit_half_open (fst (RandGen_1_Eval g))" for g :: RandGen_1
    unfolding I_def in_unit_half_open_def by (intro RandGen_1_Eval_half_open) simp_all
  have I0: "I (RandGen_1_Seed s g)"
    unfolding I_def using RandGen_1_Seed_invariant_any_seed[OF assms(1), of s] assms(2,3,4) by simp
  define h where "h = snd (scalar_draws RandGen_1_Eval k (RandGen_1_Seed s g))"
  have Ih: "I h" unfolding h_def using scalar_draws_invariant[of I RandGen_1_Eval in_unit_half_open, OF step I0] by simp
  show "in_unit_half_open (fst (RandGen_1_Eval (snd (scalar_draws RandGen_1_Eval k (RandGen_1_Seed s g)))))"
    using step[OF Ih] unfolding h_def by simp
  show "\<forall>x\<in>set (fst (RandGen_1_Eval_array n (snd (scalar_draws RandGen_1_Eval k (RandGen_1_Seed s g))))).
           in_unit_half_open x"
    unfolding RandGen_1_Eval_array_draws h_def[symmetric]
    using scalar_draws_invariant[of I RandGen_1_Eval in_unit_half_open, OF step Ih] by simp
qed

lemma RandGen_2_values_closed:
  assumes "\<bar>s\<bar> \<le> 1147878996"
  shows "in_unit_closed (fst (RandGen_2_Eval (snd (scalar_draws RandGen_2_Eval k (RandGen_2_Seed s g)))))"
    and "\<forall>x\<in>set (fst (RandGen_2_Eval_array n (snd (scalar_draws RandGen_2_Eval k (RandGen_2_Seed s g))))).
           in_unit_closed x"
proof -
  define I where "I = (\<lambda>g::RandGen_2. 0 \<le> gen_r g
        \<and> 0 \<le> gen_m g \<and> gen_m g \<le> 10 ^ 10
        \<and> 0 \<le> gen_i g \<and> gen_i g \<le> 2 * 10 ^ 10
        \<and> 0 \<le> gen_j g \<and> gen_j g \<le> 2 * 10 ^ 10
        \<and> gen_r g * gen_m (snd (RandGen_2_Eval g)) + gen_i (snd (RandGen_2_Eval g))
              + gen_j (snd (RandGen_2_Eval g)) < 2 ^ 63)"
  have step: "I (snd (RandGen_2_Eval g)) \<and> in_unit_closed (fst (RandGen_2_Eval g))"
    if "I g" for g :: RandGen_2
  proof -
    have E: "(0 \<le> gen_r (snd (RandGen_2_Eval g)) \<and> gen_r (snd (RandGen_2_Eval g)) \<le> 9999
        \<and> 0 \<le> gen_m (snd (RandGen_2_Eval g)) \<and> gen_m (snd (RandGen_2_Eval g)) \<le> 10 ^ 10
        \<and> 0 \<le> gen_i (snd (RandGen_2_Eval g)) \<and> gen_i (snd (RandGen_2_Eval g)) \<le> 2 * 10 ^ 10
        \<and> 0 \<le> gen_j (snd (RandGen_2_Eval g)) \<and> gen_j (snd (RandGen_2_Eval g)) \<le> 2 * 10 ^ 10)
       \<and> (0 \<le> valof (fst (RandGen_2_Eval g)) \<and> valof (fst (RandGen_2_Eval g)) \<le> 1)"
      using that unfolding I_def by (intro RandGen_2_Eval_sum) simp_all
    then have "gen_r (snd (RandGen_2_Eval g)) * gen_m (snd (RandGen_2_Eval (snd (RandGen_2_Eval g))))
          + gen_i (snd (RandGen_2_Eval (snd (RandGen_2_Eval g))))
          + gen_j (snd (RandGen_2_Eval (snd (RandGen_2_Eval g)))) < 2 ^ 63"
      by (intro RandGen_2_sum_after_Eval) simp_all
    with E show ?thesis unfolding I_def in_unit_closed_def by simp
  qed
  have I0: "I (RandGen_2_Seed s g)"
    unfolding I_def using RandGen_2_Seed_sum[OF assms] .
  define h where "h = snd (scalar_draws RandGen_2_Eval k (RandGen_2_Seed s g))"
  have Ih: "I h" unfolding h_def using scalar_draws_invariant[of I RandGen_2_Eval in_unit_closed, OF step I0] by simp
  show "in_unit_closed (fst (RandGen_2_Eval (snd (scalar_draws RandGen_2_Eval k (RandGen_2_Seed s g)))))"
    using step[OF Ih] unfolding h_def by simp
  show "\<forall>x\<in>set (fst (RandGen_2_Eval_array n (snd (scalar_draws RandGen_2_Eval k (RandGen_2_Seed s g))))).
           in_unit_closed x"
    unfolding RandGen_2_Eval_array_draws h_def[symmetric]
    using scalar_draws_invariant[of I RandGen_2_Eval in_unit_closed, OF step Ih] by simp
qed

lemma RandGen_3_values_closed:
  assumes "\<bar>s\<bar> < 2 ^ 63"
    and "16807 * \<bar>s\<bar> div 2147483648 + 16807 * \<bar>s\<bar> mod 2147483648 \<le> 4294967422"
  shows "in_unit_closed (fst (RandGen_3_Eval (snd (scalar_draws RandGen_3_Eval k (RandGen_3_Seed s g)))))"
    and "\<forall>x\<in>set (fst (RandGen_3_Eval_array n (snd (scalar_draws RandGen_3_Eval k (RandGen_3_Seed s g))))).
           in_unit_closed x"
proof -
  define I where "I = (\<lambda>g::RandGen_3. 0 \<le> ix g \<and> ix g < 2 ^ 63
        \<and> 16807 * ix g div 2147483648 + 16807 * ix g mod 2147483648 \<le> 4294967422)"
  have step: "I g \<Longrightarrow> I (snd (RandGen_3_Eval g)) \<and> in_unit_closed (fst (RandGen_3_Eval g))" for g :: RandGen_3
    unfolding I_def in_unit_closed_def by (intro RandGen_3_Eval_unit_wide) simp_all
  have I0: "I (RandGen_3_Seed s g)"
    unfolding I_def RandGen_3_Seed_ix_wide[OF assms(1)] using assms by simp
  define h where "h = snd (scalar_draws RandGen_3_Eval k (RandGen_3_Seed s g))"
  have Ih: "I h" unfolding h_def using scalar_draws_invariant[of I RandGen_3_Eval in_unit_closed, OF step I0] by simp
  show "in_unit_closed (fst (RandGen_3_Eval (snd (scalar_draws RandGen_3_Eval k (RandGen_3_Seed s g)))))"
    using step[OF Ih] unfolding h_def by simp
  show "\<forall>x\<in>set (fst (RandGen_3_Eval_array n (snd (scalar_draws RandGen_3_Eval k (RandGen_3_Seed s g))))).
           in_unit_closed x"
    unfolding RandGen_3_Eval_array_draws h_def[symmetric]
    using scalar_draws_invariant[of I RandGen_3_Eval in_unit_closed, OF step Ih] by simp
qed


text \<open>
  Claim C5, as amended.  In a state reached by \<open>Seed(s)\<close> and any number of draws, every
  value returned by the scalar \<open>Eval()\<close> and every element stored by \<open>Eval(n, buffer)\<close>
  lies in the half-open range \<open>[0, 1)\<close> for \<open>RandGen_1\<close>, and in the closed range \<open>[0, 1]\<close>
  for \<open>RandGen_2\<close> and \<open>RandGen_3\<close>, where the upper end \<open>1\<close> is attained (the product is below
  \<open>1\<close> as a \<open>double\<close>, and the conversion to \<open>float\<close> rounds it to \<open>1\<close>).  The seeds are those
  with which the code computes without signed overflow and stays in the range:
  for \<open>RandGen_1\<close>, the sum \<open>IC + ABS( seed ) + 1\<close> of \<open>Seed\<close> fits a \<open>long\<close>
  (\<open>|s| \<le> 2 ^ 63 - 150891\<close>), on an instance whose member \<open>seed\<close>, which \<open>Seed\<close> does not set,
  is such that the update \<open>(IA * seed + IC) % M1\<close> does not overflow and is not negative
  (as with every \<open>-110 \<le> seed \<le> 6752102515998993\<close>);
  for \<open>RandGen_2\<close>, \<open>|s| \<le> 1147878996\<close>, the seeds for which \<open>r * m + i + j\<close> fits a \<open>long\<close>;
  for \<open>RandGen_3\<close>, \<open>|s| \<le> 274390817991841\<close>, and every larger \<open>|s| < 2 ^ 63\<close> for which
  \<open>16807 * |s| div 2 ^ 31 + 16807 * |s| mod 2 ^ 31 \<le> 2 ^ 32 + 126\<close>, which is when the first
  \<open>Eval()\<close> leaves \<open>ix \<le> 2 ^ 31 + 127\<close>.
\<close>

theorem draws_in_unit_interval:
  "(length (shuffle ga) = 98
      \<and> - (2 ^ 63) \<le> IA * seed ga \<and> IA * seed ga + IC < 2 ^ 63
      \<and> 0 \<le> lrem (IA * seed ga + IC) M1
      \<and> IC + \<bar>sa\<bar> + 1 < 2 ^ 63 \<longrightarrow>
      in_unit_half_open (fst (RandGen_1_Eval (snd (scalar_draws RandGen_1_Eval k (RandGen_1_Seed sa ga)))))
      \<and> (\<forall>x\<in>set (fst (RandGen_1_Eval_array n
                (snd (scalar_draws RandGen_1_Eval k (RandGen_1_Seed sa ga))))). in_unit_half_open x))
 \<and> (\<bar>sb\<bar> \<le> 1147878996 \<longrightarrow>
      in_unit_closed (fst (RandGen_2_Eval (snd (scalar_draws RandGen_2_Eval k (RandGen_2_Seed sb gb)))))
      \<and> (\<forall>x\<in>set (fst (RandGen_2_Eval_array n
                (snd (scalar_draws RandGen_2_Eval k (RandGen_2_Seed sb gb))))). in_unit_closed x))
 \<and> (\<bar>sc\<bar> \<le> 274390817991841
      \<or> (\<bar>sc\<bar> < 2 ^ 63
          \<and> 16807 * \<bar>sc\<bar> div 2 ^ 31 + 16807 * \<bar>sc\<bar> mod 2 ^ 31 \<le> 2 ^ 32 + 126) \<longrightarrow>
      in_unit_closed (fst (RandGen_3_Eval (snd (scalar_draws RandGen_3_Eval k (RandGen_3_Seed sc gc)))))
      \<and> (\<forall>x\<in>set (fst (RandGen_3_Eval_array n
                (snd (scalar_draws RandGen_3_Eval k (RandGen_3_Seed sc gc))))). in_unit_closed x))"
proof (intro conjI impI)
  assume a: "length (shuffle ga) = 98
      \<and> - (2 ^ 63) \<le> IA * seed ga \<and> IA * seed ga + IC < 2 ^ 63
      \<and> 0 \<le> lrem (IA * seed ga + IC) M1
      \<and> IC + \<bar>sa\<bar> + 1 < 2 ^ 63"
  show "in_unit_half_open (fst (RandGen_1_Eval (snd (scalar_draws RandGen_1_Eval k (RandGen_1_Seed sa ga)))))"
    using a by (intro RandGen_1_values_half_open(1)) simp_all
  show "\<forall>x\<in>set (fst (RandGen_1_Eval_array n
                (snd (scalar_draws RandGen_1_Eval k (RandGen_1_Seed sa ga))))). in_unit_half_open x"
    using a by (intro RandGen_1_values_half_open(2)) simp_all
next
  assume a: "\<bar>sb\<bar> \<le> 1147878996"
  show "in_unit_closed (fst (RandGen_2_Eval (snd (scalar_draws RandGen_2_Eval k (RandGen_2_Seed sb gb)))))"
    using a by (rule RandGen_2_values_closed(1))
  show "\<forall>x\<in>set (fst (RandGen_2_Eval_array n
                (snd (scalar_draws RandGen_2_Eval k (RandGen_2_Seed sb gb))))). in_unit_closed x"
    using a by (rule RandGen_2_values_closed(2))
next
  assume a: "\<bar>sc\<bar> \<le> 274390817991841
      \<or> (\<bar>sc\<bar> < 2 ^ 63
          \<and> 16807 * \<bar>sc\<bar> div 2 ^ 31 + 16807 * \<bar>sc\<bar> mod 2 ^ 31 \<le> 2 ^ 32 + 126)"
  have c: "\<bar>sc\<bar> < 2 ^ 63
      \<and> 16807 * \<bar>sc\<bar> div 2147483648 + 16807 * \<bar>sc\<bar> mod 2147483648 \<le> 4294967422"
  proof (cases "\<bar>sc\<bar> \<le> 274390817991841")
    case True
    then have "0 \<le> \<bar>sc\<bar>" "\<bar>sc\<bar> < 274390817991842" by simp_all
    from schrage_sum_bound(2)[OF this] True show ?thesis by simp
  next
    case False
    with a show ?thesis by simp
  qed
  show "in_unit_closed (fst (RandGen_3_Eval (snd (scalar_draws RandGen_3_Eval k (RandGen_3_Seed sc gc)))))"
    using c by (intro RandGen_3_values_closed(1)) simp_all
  show "\<forall>x\<in>set (fst (RandGen_3_Eval_array n
                (snd (scalar_draws RandGen_3_Eval k (RandGen_3_Seed sc gc))))). in_unit_closed x"
    using c by (intro RandGen_3_values_closed(2)) simp_all
qed

theorem draws_in_unit_interval_witness:
  "(length (shuffle \<lparr>index = 0, seed = - 110, shuffle = replicate 98 0\<rparr>) = 98
    \<and> - (2 ^ 63) \<le> IA * seed \<lparr>index = 0, seed = - 110, shuffle = replicate 98 0\<rparr>
    \<and> IA * seed \<lparr>index = 0, seed = - 110, shuffle = replicate 98 0\<rparr> + IC < 2 ^ 63
    \<and> 0 \<le> lrem (IA * seed \<lparr>index = 0, seed = - 110, shuffle = replicate 98 0\<rparr> + IC) M1
    \<and> IC + \<bar>9223372036854624917\<bar> + 1 < 2 ^ 63)
   \<and> in_unit_half_open (fst (RandGen_1_Eval (snd (scalar_draws RandGen_1_Eval 3
          (RandGen_1_Seed 9223372036854624917 \<lparr>index = 0, seed = - 110, shuffle = replicate 98 0\<rparr>)))))
   \<and> \<bar>- 1147878996::int\<bar> \<le> 1147878996
   \<and> in_unit_closed (fst (RandGen_2_Eval (snd (scalar_draws RandGen_2_Eval 3
          (RandGen_2_Seed (- 1147878996) \<lparr>gen_r = 0, gen_m = 0, gen_i = 0, gen_j = 0\<rparr>)))))
   \<and> \<bar>274390817991841::int\<bar> \<le> 274390817991841
   \<and> in_unit_closed (fst (RandGen_3_Eval (snd (scalar_draws RandGen_3_Eval 3
          (RandGen_3_Seed 274390817991841 \<lparr>ix = 0\<rparr>)))))
   \<and> (\<bar>274390817991843::int\<bar> < 2 ^ 63
      \<and> 16807 * \<bar>274390817991843::int\<bar> div 2 ^ 31 + 16807 * \<bar>274390817991843\<bar> mod 2 ^ 31 \<le> 2 ^ 32 + 126)
   \<and> in_unit_closed (fst (RandGen_3_Eval (snd (scalar_draws RandGen_3_Eval 3
          (RandGen_3_Seed 274390817991843 \<lparr>ix = 0\<rparr>)))))"
  using draws_in_unit_interval
    [where ga = "\<lparr>index = 0, seed = - 110, shuffle = replicate 98 0\<rparr>"
       and sa = 9223372036854624917 and k = 3
       and sb = "- 1147878996" and gb = "\<lparr>gen_r = 0, gen_m = 0, gen_i = 0, gen_j = 0\<rparr>"
       and sc = 274390817991841 and gc = "\<lparr>ix = 0\<rparr>"]
    draws_in_unit_interval
    [where sc = 274390817991843 and k = 3 and gc = "\<lparr>ix = 0\<rparr>"]
  by (simp add: IA_def IC_def M1_def lrem_def)


text \<open>The claim C5 as stated (every value strictly below \<open>1\<close>) fails for \<open>RandGen_2\<close>
  at \<open>Seed(4597)\<close>: the first \<open>Eval()\<close> computes \<open>r = 9999\<close>, the \<open>double\<close> product
  \<open>9999 * 1.00010001E-4\<close> is \<open>0.999999999999\<close>, and the nearest \<open>float\<close> is \<open>1\<close>.\<close>

theorem RandGen_2_Eval_returns_one:
  "valof (fst (RandGen_2_Eval
      (RandGen_2_Seed 4597 \<lparr>gen_r = 0, gen_m = 0, gen_i = 0, gen_j = 0\<rparr>))) = 1"
proof -
  have S: "RandGen_2_Seed 4597 \<lparr>gen_r = 0, gen_m = 0, gen_i = 0, gen_j = 0\<rparr> =
           \<lparr>gen_r = 4597, gen_m = 32179, gen_i = 50567, gen_j = 187761\<rparr>"
    unfolding RandGen_2_Seed_def Let_def
    by (simp add: ABS_def lmul_def ladd_def wrap_id)
  have r: "gen_r (snd (RandGen_2_Eval \<lparr>gen_r = 4597, gen_m = 32179, gen_i = 50567, gen_j = 187761\<rparr>)) = 9999"
    unfolding RandGen_2_Eval_def Let_def snd_conv RandGen_2.simps
    by (simp add: lmul_def ladd_def lsub_def wrap_id lrem_def ldiv_def)
  have "to_float (dmul (double_of_long 9999) (Fp 7379435573033745 (- 66))) = Fp 16777216 (- 24)"
    unfolding to_float_def dmul_def double_of_long_def to_double_def round_prec_def Let_def
    by (simp add: rne_div_def compute_bitlen)
  then show ?thesis
    unfolding S RandGen_2_Eval_r(2) r scale_2_value by (simp add: valof_def)
qed

text \<open>The same happens in \<open>RandGen_3\<close>: after \<open>Seed(739806647)\<close> the first \<open>Eval()\<close> sets
  \<open>ix = 2147483646\<close>, the largest residue, and returns \<open>1\<close>.\<close>

lemma RandGen_3_Eval_returns_one:
  "ix (snd (RandGen_3_Eval (RandGen_3_Seed 739806647 \<lparr>ix = 0\<rparr>))) = 2147483646
   \<and> valof (fst (RandGen_3_Eval (RandGen_3_Seed 739806647 \<lparr>ix = 0\<rparr>))) = 1"
proof -
  have S: "RandGen_3_Seed 739806647 \<lparr>ix = 0\<rparr> = \<lparr>ix = 739806647\<rparr>"
    by (simp add: RandGen_3_Seed_def ABS_def)
  have "RandGen_3_Eval \<lparr>ix = 739806647\<rparr> =
     (to_float (dmul (double_of_long ((16807 * ix \<lparr>ix = 739806647\<rparr>) mod 2147483647))
                     (double_lit 4656612875 (10 ^ 19))),
      \<lparr>ix = 739806647\<rparr>\<lparr>ix := (16807 * ix \<lparr>ix = 739806647\<rparr>) mod 2147483647\<rparr>)"
    by (rule RandGen_3_Eval_mod) simp_all
  then have E: "RandGen_3_Eval \<lparr>ix = 739806647\<rparr> =
      (to_float (dmul (double_of_long 2147483646) (Fp 4503599629229928 (- 83))),
       \<lparr>ix = 2147483646\<rparr>)"
    unfolding scale_3_value by simp
  have "to_float (dmul (double_of_long 2147483646) (Fp 4503599629229928 (- 83))) = Fp 16777216 (- 24)"
    unfolding to_float_def dmul_def double_of_long_def to_double_def round_prec_def Let_def
    by (simp add: rne_div_def compute_bitlen)
  then show ?thesis unfolding S E by (simp add: valof_def)
qed

subsection \<open>Where the ranges of the seeds end\<close>

text \<open>\<open>RandGen_3\<close> never overflows, and the seeds left out are those after which the first
  \<open>Eval()\<close> returns a value above \<open>1\<close>: whenever the sum \<open>k + w\<close> is above \<open>2 ^ 32 + 126\<close>, the
  new \<open>ix\<close> is at least \<open>2 ^ 31 + 128\<close>, the product is above \<open>1 + 2 ^ - 24\<close>, and the nearest
  \<open>float\<close> is above \<open>1\<close>.  The least such seed is \<open>274390817991842\<close>, where \<open>ix\<close> becomes
  \<open>2 ^ 31 + 132\<close> and the value \<open>1 + 2 ^ - 23\<close>.\<close>

lemma scaled_value_above_one:
  assumes "2147483776 \<le> n" "n < 2 ^ 53"
  shows "1 < valof (to_float (dmul (double_of_long n) (Fp 4503599629229928 (- 83))))"
proof -
  have n0: "0 \<le> n" using assms(1) by simp
  have d: "double_of_long n = Fp n 0" using n0 assms(2) by (intro double_of_long_exact) simp
  have v: "valof (Fp n 0) = real_of_int n" by (simp add: valof_def)
  have "valof (Fp 4503599895805953 (- 52)) \<le> real_of_int 2147483776 * valof (Fp 4503599629229928 (- 83))"
    by (simp add: valof_def power_int_minus)
  also have "\<dots> \<le> real_of_int n * valof (Fp 4503599629229928 (- 83))"
    using assms(1) by (intro mult_right_mono valof_nonneg) simp_all
  finally have E: "valof (Fp 4503599895805953 (- 52))
      \<le> valof (Fp (mant (Fp n 0) * mant (Fp 4503599629229928 (- 83)))
                   (expo (Fp n 0) + expo (Fp 4503599629229928 (- 83))))"
    unfolding valof_product v .
  have "valof (Fp 4503599895805953 (- 52))
      \<le> valof (round_prec 53 (Fp (mant (Fp n 0) * mant (Fp 4503599629229928 (- 83)))
                   (expo (Fp n 0) + expo (Fp 4503599629229928 (- 83)))))"
    by (rule round_prec_ge_bound[OF _ _ _ E]) simp_all
  moreover have "1 + 1 / 2 ^ 24 < valof (Fp 4503599895805953 (- 52))"
    by (simp add: valof_def power_int_minus)
  ultimately have D: "1 + 1 / 2 ^ 24
      < valof (round_prec 53 (Fp (mant (Fp n 0) * mant (Fp 4503599629229928 (- 83)))
                   (expo (Fp n 0) + expo (Fp 4503599629229928 (- 83)))))"
    by linarith
  show ?thesis
    unfolding d dmul_def to_double_def to_float_def
    by (rule round_prec_gt_1[OF _ D]) simp
qed

lemma RandGen_3_Eval_above_one_beyond:
  assumes "\<bar>s\<bar> < 2 ^ 63"
    and "2 ^ 32 + 126 < 16807 * \<bar>s\<bar> div 2 ^ 31 + 16807 * \<bar>s\<bar> mod 2 ^ 31"
  shows "1 < valof (fst (RandGen_3_Eval (RandGen_3_Seed s g)))"
proof -
  define h where "h = RandGen_3_Seed s g"
  define v where "v = 16807 * ix h div 2147483648 + 16807 * ix h mod 2147483648"
  have i: "ix h = \<bar>s\<bar>" unfolding h_def by (rule RandGen_3_Seed_ix_wide[OF assms(1)])
  have i0: "0 \<le> ix h" "ix h < 2 ^ 63" using assms(1) unfolding i by simp_all
  have v: "4294967422 < v" using assms(2) unfolding v_def i by simp
  have "16807 * ix h < 16807 * 2 ^ 63" using i0(2) by simp
  then have "16807 * ix h div 2147483648 \<le> 16807 * 2 ^ 63 div 2147483648"
    by (intro zdiv_mono1) simp_all
  moreover have "16807 * ix h mod 2147483648 < 2147483648" by simp
  ultimately have vb: "v < 2 ^ 47" unfolding v_def by simp
  have n: "2147483776 \<le> v - 2147483647" "v - 2147483647 < 2 ^ 53" using v vb by simp_all
  have "RandGen_3_Eval h =
      (to_float (dmul (double_of_long (if v < 2147483647 then v else v - 2147483647))
          (double_lit 4656612875 (10 ^ 19))),
       h\<lparr>ix := (if v < 2147483647 then v else v - 2147483647)\<rparr>)"
    unfolding v_def by (rule RandGen_3_Eval_sum[OF i0])
  then have "fst (RandGen_3_Eval h) =
      to_float (dmul (double_of_long (v - 2147483647)) (Fp 4503599629229928 (- 83)))"
    using v unfolding scale_3_value by simp
  then show ?thesis
    unfolding h_def[symmetric] using scaled_value_above_one[OF n] by simp
qed

lemma RandGen_3_Eval_above_one:
  "ix (snd (RandGen_3_Eval (RandGen_3_Seed 274390817991842 \<lparr>ix = 0\<rparr>))) = 2147483780
   \<and> 1 < valof (fst (RandGen_3_Eval (RandGen_3_Seed 274390817991842 \<lparr>ix = 0\<rparr>)))"
proof -
  have S: "RandGen_3_Seed 274390817991842 \<lparr>ix = 0\<rparr> = \<lparr>ix = 274390817991842\<rparr>"
    by (simp add: RandGen_3_Seed_def ABS_def)
  have "0 \<le> ix \<lparr>ix = 274390817991842\<rparr>" "ix \<lparr>ix = 274390817991842\<rparr> < 2 ^ 63"
    by simp_all
  from RandGen_3_Eval_sum[OF this]
  have E: "RandGen_3_Eval \<lparr>ix = 274390817991842\<rparr> =
      (to_float (dmul (double_of_long 2147483780) (Fp 4503599629229928 (- 83))),
       \<lparr>ix = 2147483780\<rparr>)"
    unfolding scale_3_value by simp
  have "to_float (dmul (double_of_long 2147483780) (Fp 4503599629229928 (- 83))) = Fp 8388609 (- 23)"
    unfolding to_float_def dmul_def double_of_long_def to_double_def round_prec_def Let_def
    by (simp add: rne_div_def compute_bitlen)
  then show ?thesis unfolding S E by (simp add: valof_def)
qed


text \<open>Where \<open>long\<close> has 64 bits a seed can lie beyond the 31 bits of Method 3, and the
  decomposition then leaves \<open>ix\<close> above the modulus: after \<open>Seed(2 ^ 50)\<close> the first
  \<open>Eval()\<close> sets \<open>ix = 6664224769\<close> and returns a value above \<open>3\<close>.\<close>

lemma RandGen_3_large_seed:
  "ix (snd (RandGen_3_Eval (RandGen_3_Seed 1125899906842624 \<lparr>ix = 0\<rparr>))) = 6664224769
   \<and> 3 < valof (fst (RandGen_3_Eval (RandGen_3_Seed 1125899906842624 \<lparr>ix = 0\<rparr>)))"
proof -
  have S: "RandGen_3_Seed 1125899906842624 \<lparr>ix = 0\<rparr> = \<lparr>ix = 1125899906842624\<rparr>"
    by (simp add: RandGen_3_Seed_def ABS_def)
  have a: "(1125899906842624::int) AND 0xFFFF = 0"
    by (simp add: and_mask16)
  have E: "RandGen_3_Eval \<lparr>ix = 1125899906842624\<rparr> =
      (to_float (dmul (double_of_long 6664224769) (Fp 4503599629229928 (- 83))),
       \<lparr>ix = 6664224769\<rparr>)"
    unfolding RandGen_3_Eval_def Let_def scale_3_value
    by (simp add: lshr_def land_def a lmul_def ladd_def lsub_def lshl_def wrap_id A3_def P3_def
        drop_bit_eq_div push_bit_eq_mult)
  have "to_float (dmul (double_of_long 6664224769) (Fp 4503599629229928 (- 83))) = Fp 13016064 (- 22)"
    unfolding to_float_def dmul_def double_of_long_def to_double_def round_prec_def Let_def
    by (simp add: rne_div_def compute_bitlen)
  then show ?thesis unfolding S E by (simp add: valof_def)
qed

text \<open>\<open>RandGen_2\<close>: with every larger seed the sum \<open>r * m + i + j\<close> of the first \<open>Eval()\<close> is at
  least \<open>2 ^ 63\<close> (lemma \<open>RandGen_2_Seed_overflows\<close>, for the seeds that \<open>Seed\<close> and the
  increments of \<open>Eval\<close> can take without overflow themselves), which C++ leaves undefined.
  After \<open>Seed(1147878997)\<close> the sum is \<open>2 ^ 63 + 10291865399\<close>; wrapped around, \<open>r\<close> becomes
  \<open>-1040\<close> and the value returned is negative.\<close>

lemma RandGen_2_Eval_overflows:
  "gen_r (RandGen_2_Seed 1147878997 g)
     * gen_m (snd (RandGen_2_Eval (RandGen_2_Seed 1147878997 g)))
     + gen_i (snd (RandGen_2_Eval (RandGen_2_Seed 1147878997 g)))
     + gen_j (snd (RandGen_2_Eval (RandGen_2_Seed 1147878997 g))) = 2 ^ 63 + 10291865399
   \<and> valof (fst (RandGen_2_Eval (RandGen_2_Seed 1147878997 g))) < 0"
proof -
  have S: "RandGen_2_Seed 1147878997 g =
           \<lparr>gen_r = 1147878997, gen_m = 8035152979, gen_i = 12626668967, gen_j = 14922426961\<rparr>"
    unfolding RandGen_2_Seed_def Let_def
    by (simp add: ABS_def lmul_def ladd_def wrap_id)
  have M: "gen_m (snd (RandGen_2_Eval \<lparr>gen_r = 1147878997, gen_m = 8035152979, gen_i = 12626668967, gen_j = 14922426961\<rparr>)) = 8035143115"
      "gen_i (snd (RandGen_2_Eval \<lparr>gen_r = 1147878997, gen_m = 8035152979, gen_i = 12626668967, gen_j = 14922426961\<rparr>)) = 12626580885"
      "gen_j (snd (RandGen_2_Eval \<lparr>gen_r = 1147878997, gen_m = 8035152979, gen_i = 12626668967, gen_j = 14922426961\<rparr>)) = 14922404667"
    unfolding RandGen_2_Eval_members by (simp_all add: ladd_def lsub_def wrap_id)
  have r: "gen_r (snd (RandGen_2_Eval \<lparr>gen_r = 1147878997, gen_m = 8035152979, gen_i = 12626668967, gen_j = 14922426961\<rparr>)) = - 1040"
    unfolding RandGen_2_Eval_r(1) M
    by (simp add: lmul_def ladd_def wrap_def lrem_def ldiv_def)
  have "to_float (dmul (double_of_long (- 1040)) (Fp 7379435573033745 (- 66))) = Fp (- 13960040) (- 27)"
    unfolding to_float_def dmul_def double_of_long_def to_double_def round_prec_def Let_def
    by (simp add: rne_div_def compute_bitlen)
  then show ?thesis
    unfolding S RandGen_2_Eval_r(2) r scale_2_value M by (simp add: valof_def)
qed

text \<open>\<open>RandGen_1\<close>: at \<open>|s| = 2 ^ 63 - 150890\<close> the sum \<open>IC + ABS( seed ) + 1\<close> of \<open>Seed\<close> is
  \<open>2 ^ 63\<close> and overflows; at \<open>seed = 6752102515998994\<close> the update \<open>IA * seed + IC\<close> of the
  member overflows.  Whenever the update is negative, \<open>Seed(21)\<close> and two calls of \<open>Eval()\<close>
  return it: the first call stores it in cell \<open>20\<close>, the second reads that cell again.
  At \<open>seed = -111\<close> the update is \<open>-737\<close>.\<close>

lemma RandGen_1_Seed_overflows:
  "IC + \<bar>9223372036854624918\<bar> + 1 = 2 ^ 63
   \<and> ladd (ladd IC (ABS 9223372036854624918)) 1 = - (2 ^ 63)"
  by (simp add: IC_def ABS_def ladd_def wrap_def)

lemma RandGen_1_member_seed_overflows:
  "IA * 6752102515998994 + IC = 2 ^ 63 + 885
   \<and> lrem (ladd (lmul IA 6752102515998994) IC) M1 = - 636123"
  by (simp add: IA_def IC_def M1_def lmul_def ladd_def wrap_def lrem_def)

lemma RandGen_1_second_draw_after_Seed_21:
  "fst (scalar_draws RandGen_1_Eval 2
            (RandGen_1_Seed 21 \<lparr>index = 0, seed = seed0, shuffle = replicate 98 0\<rparr>)) =
         [to_float (dmul (double_of_long 141316) RM),
          to_float (dmul (double_of_long (lrem (ladd (lmul IA seed0) IC) M1)) RM)]"
proof -
  define g where "g = \<lparr>index = 0, seed = seed0, shuffle = replicate 98 0\<rparr>"
  define A where "A = RandGen_1_Seed 21 g"
  define new where "new = lrem (ladd (lmul IA seed0) IC) M1"
  have len: "length (shuffle g) = 98" by (simp add: g_def)
  have s: "\<bar>21::int\<bar> \<le> 2 ^ 62" by simp
  note R = RandGen_1_Seed_result[OF len s, folded A_def]
  have iA: "index A = 144033" using R(1) by (simp add: seed_t_21)
  have sA: "seed A = seed0" using R(2) by (simp add: g_def)
  have lA: "length (shuffle A) = 98" by (rule R(3))
  have eA: "shuffle A ! 20 = 141316" using R(4)[of 20] by (simp add: seed_t_21)
  have o1: "nat (1 + 97 * index A div M1) = 20" by (simp add: iA M1_def)
  define B where "B = A\<lparr>index := 141316, seed := new, shuffle := (shuffle A)[20 := new]\<rparr>"
  have E1: "RandGen_1_Eval A = (to_float (dmul (double_of_long 141316) RM), B)"
    by (subst RandGen_1_Eval_index_small)
       (simp_all add: iA M1_def[of] o1[unfolded iA] eA sA new_def[unfolded M1_def, symmetric] B_def)
  have iB: "index B = 141316" by (simp add: B_def)
  have o2: "nat (1 + 97 * index B div M1) = 20" by (simp add: iB M1_def)
  have eB: "shuffle B ! 20 = new" using lA by (simp add: B_def)
  have E2: "fst (RandGen_1_Eval B) = to_float (dmul (double_of_long new) RM)"
    by (subst RandGen_1_Eval_index_small) (simp_all add: iB M1_def[of] o2[unfolded iB] eB)
  have two: "(2::nat) = Suc (Suc 0)" by simp
  show ?thesis
    unfolding g_def[symmetric] A_def[symmetric] new_def[symmetric] two scalar_draws_Suc
      scalar_draws.simps fst_conv snd_conv E1 E2
    ..
qed

lemma RandGen_1_negative_draw_beyond:
  assumes "- (2 ^ 63) \<le> IA * seed0" "IA * seed0 + IC < 2 ^ 63"
    and "lrem (IA * seed0 + IC) M1 < 0"
  shows "valof (fst (scalar_draws RandGen_1_Eval 2
        (RandGen_1_Seed 21 \<lparr>index = 0, seed = seed0, shuffle = replicate 98 0\<rparr>)) ! 1) < 0"
proof -
  define new where "new = lrem (IA * seed0 + IC) M1"
  have e: "lrem (ladd (lmul IA seed0) IC) M1 = new"
    unfolding new_def by (rule lcg_step_wide[OF assms(1,2)])
  have "- M1 < new" unfolding new_def by (rule lrem_M1_bounded)
  then have n: "new < 0" "- (2 ^ 53) < new" using assms(3) by (simp_all add: new_def M1_def)
  have "valof (to_float (dmul (double_of_long new) RM)) < 0"
    by (rule scaled_value_neg[OF n]) (simp add: RM_value)
  then show ?thesis
    unfolding RandGen_1_second_draw_after_Seed_21 e by simp
qed

lemma RandGen_1_negative_draw:
  "IA * (- 111) + IC = - 737
   \<and> valof (fst (scalar_draws RandGen_1_Eval 2
        (RandGen_1_Seed 21 \<lparr>index = 0, seed = - 111, shuffle = replicate 98 0\<rparr>)) ! 1) < 0"
proof -
  have new: "lrem (ladd (lmul IA (- 111)) IC) M1 = - 737"
    by (simp add: lmul_def ladd_def wrap_id lrem_def IA_def IC_def M1_def)
  have "to_float (dmul (double_of_long (- 737)) RM) = Fp (- 8866336) (- 33)"
    unfolding RM_value to_float_def dmul_def double_of_long_def to_double_def round_prec_def Let_def
    by (simp add: rne_div_def compute_bitlen)
  then show ?thesis
    unfolding RandGen_1_second_draw_after_Seed_21 new
    by (simp add: valof_def IA_def IC_def)
qed


section \<open>\<open>Perm\<close>\<close>

lemma wrap32_id: "- (2 ^ 31) \<le> x \<Longrightarrow> x < 2 ^ 31 \<Longrightarrow> wrap 32 x = x"
  by (simp add: wrap_def)

lemma Perm_init_skip: "\<not> j < len \<Longrightarrow> Perm_init j len perm = Inr perm"
  by (subst Perm_init.simps) simp

lemma Perm_init_identity:
  assumes "0 \<le> j" "j \<le> len" "nat len \<le> length perm"
  shows "Perm_init j len perm =
           Inr (take (nat j) perm @ map int [nat j..<nat len] @ drop (nat len) perm)"
  using assms
proof (induction j len perm rule: Perm_init.induct)
  case (1 j len perm)
  show ?case
  proof (cases "j < len")
    case False
    with 1(3) have "j = len" by simp
    then show ?thesis by (subst Perm_init.simps) simp
  next
    case True
    have jl: "nat j < length perm" using True 1(2,4) by simp
    have IH: "Perm_init (j + 1) len (perm[nat j := j]) =
           Inr (take (nat (j + 1)) (perm[nat j := j]) @ map int [nat (j + 1)..<nat len]
                @ drop (nat len) (perm[nat j := j]))"
      using 1(1)[OF True] 1(2) True jl 1(4) by simp
    have n1: "nat (j + 1) = Suc (nat j)" using 1(2) by simp
    have t: "take (Suc (nat j)) (perm[nat j := j]) = take (nat j) perm @ [j]"
      using jl by (simp add: take_Suc_conv_app_nth)
    have d: "drop (nat len) (perm[nat j := j]) = drop (nat len) perm"
      using True 1(2) by simp
    have u: "[nat j..<nat len] = nat j # [Suc (nat j)..<nat len]"
      using True 1(2) by (simp add: upt_conv_Cons)
    show ?thesis
      by (subst Perm_init.simps) (simp add: True 1(2) jl IH n1 t d u)
  qed
qed


lemma valof_nonneg_iff: "0 \<le> valof x \<longleftrightarrow> 0 \<le> mant x"
proof -
  have p: "(0::real) < 2 powi expo x" by simp
  show ?thesis
  proof
    assume "0 \<le> valof x"
    then have "0 \<le> real_of_int (mant x) * 2 powi expo x" by (simp add: valof_def)
    then have "0 \<le> real_of_int (mant x)" using p by (simp only: zero_le_mult_iff) linarith
    then show "0 \<le> mant x" by simp
  next
    assume "0 \<le> mant x"
    then show "0 \<le> valof x" by (rule valof_nonneg)
  qed
qed

lemma int_of_float_nonneg: "0 \<le> mant x \<Longrightarrow> 0 \<le> int_of_float x"
  by (simp add: int_of_float_def sgn_if pos_imp_zdiv_nonneg_iff)

lemma Perm_candidate_nonneg:
  assumes "0 \<le> i" "0 \<le> mant x"
  shows "0 \<le> int_of_float (fmul (float_of_int i) x)"
proof -
  have "0 \<le> mant (float_of_int i)"
    unfolding float_of_int_def to_float_def using assms(1) by (intro round_prec_nonneg) simp
  then have "0 \<le> mant (fmul (float_of_int i) x)"
    unfolding fmul_def to_float_def using assms(2) by (intro round_prec_nonneg) simp
  then show ?thesis by (rule int_of_float_nonneg)
qed

lemma perm_swap_ok:
  assumes "0 \<le> k" "k < i" "nat i < length perm"
  shows "\<exists>perm1. perm_swap perm i k = Inr perm1 \<and> mset perm1 = mset perm
           \<and> drop (nat (i + 1)) perm1 = drop (nat (i + 1)) perm"
proof -
  have k: "nat k < length perm" "nat k < nat i" using assms by simp_all
  have "perm_swap perm i k = Inr (perm[nat i := perm ! nat k, nat k := perm ! nat i])"
    using assms k unfolding perm_swap_def Let_def by simp
  moreover have "mset (perm[nat i := perm ! nat k, nat k := perm ! nat i]) = mset perm"
    using assms(3) k(1) by (simp add: mset_swap)
  moreover have "drop (nat (i + 1)) (perm[nat i := perm ! nat k, nat k := perm ! nat i])
                   = drop (nat (i + 1)) perm"
    using assms k by simp
  ultimately show ?thesis by blast
qed


lemma Perm_refill_ok:
  fixes Eval :: "int \<Rightarrow> 'g \<Rightarrow> fpnum list \<times> 'g"
  assumes contract: "\<And>n g. I g \<Longrightarrow>
              length (fst (Eval n g)) = nat n \<and> (\<forall>x\<in>set (fst (Eval n g)). 0 \<le> mant x)
              \<and> I (snd (Eval n g))"
    and g: "I g" and i: "0 < i" and inv: "Perm_invariant i n N L R"
  shows "\<exists>n1 N1 L1 R1 g1 x.
           (if n = N then
                 (let N1 = (if L < Nmax then L else Nmax);
                      (xs, g1) = Eval N1 g
                  in case R_store xs R of
                       Inl e \<Rightarrow> Inl e
                     | Inr R1 \<Rightarrow> Inr (0, N1, L - N1, R1, g1))
               else Inr (n, N, L, R, g)) = Inr (n1, N1, L1, R1, g1)
           \<and> R_read R1 n1 = Inr x \<and> 0 \<le> mant x
           \<and> Perm_invariant (i - 1) (n1 + 1) N1 L1 R1 \<and> I g1"
proof (cases "n = N")
  case False
  from inv have J: "0 \<le> n" "n \<le> N" "N \<le> Nmax" "length R = nat Nmax" "L + (N - n) = i"
      "\<forall>q<nat N. \<exists>x. R ! q = Some x \<and> 0 \<le> mant x"
    unfolding Perm_invariant_def by simp_all
  have nN: "n < N" using False J(2) by simp
  then have "nat n < nat N" using J(1) by simp
  with J(6) obtain x where x: "R ! nat n = Some x" "0 \<le> mant x" by blast
  have "nat n < length R" using nN J(1,3,4) by simp
  then have rd: "R_read R n = Inr x" using J(1) x(1) unfolding R_read_def by simp
  have "Perm_invariant (i - 1) (n + 1) N L R"
    unfolding Perm_invariant_def using J nN by simp
  then show ?thesis using False rd x(2) g by simp
next
  case True
  from inv have J: "0 \<le> n" "n \<le> N" "N \<le> Nmax" "length R = nat Nmax" "L + (N - n) = i"
    unfolding Perm_invariant_def by simp_all
  have L: "L = i" using J(5) True by simp
  define N1 where "N1 = (if L < Nmax then L else Nmax)"
  have N1: "1 \<le> N1" "N1 \<le> Nmax" "N1 \<le> L" using L i by (simp_all add: N1_def Nmax_def)
  define xs where "xs = fst (Eval N1 g)"
  define g1 where "g1 = snd (Eval N1 g)"
  have E: "Eval N1 g = (xs, g1)" by (simp add: xs_def g1_def)
  have c: "length xs = nat N1" "\<forall>x\<in>set xs. 0 \<le> mant x" "I g1"
    using contract[OF g, of N1] by (simp_all add: xs_def g1_def)
  define R1 where "R1 = map Some xs @ drop (length xs) R"
  have st: "R_store xs R = Inr R1"
    unfolding R_store_def R1_def using c(1) N1(2) J(4) by simp
  have len1: "length R1 = nat Nmax" unfolding R1_def using c(1) N1 J(4) by simp
  have ent: "R1 ! q = Some (xs ! q)" if "q < nat N1" for q
    unfolding R1_def using that c(1) by (simp add: nth_append)
  have x0: "R1 ! 0 = Some (xs ! 0)" using ent[of 0] N1(1) by simp
  have m0: "0 \<le> mant (xs ! 0)" using c(1,2) N1(1) by simp
  have rd: "R_read R1 0 = Inr (xs ! 0)"
    unfolding R_read_def using x0 len1 by (simp add: Nmax_def)
  have "\<forall>q<nat N1. \<exists>x. R1 ! q = Some x \<and> 0 \<le> mant x"
    using ent c(1,2) by simp
  then have "Perm_invariant (i - 1) (0 + 1) N1 (L - N1) R1"
    unfolding Perm_invariant_def using N1 len1 L by simp
  then show ?thesis
    using True rd m0 c(3) st E unfolding N1_def[symmetric] Let_def by simp
qed


lemma Perm_loop_exit: "\<not> 0 < i \<Longrightarrow> Perm_loop Eval i n N L R perm g = Inr (perm, g)"
  by (subst Perm_loop.simps) simp

lemma Perm_loop_permutes:
  fixes Eval :: "int \<Rightarrow> 'g \<Rightarrow> fpnum list \<times> 'g"
  assumes contract: "\<And>n g. I g \<Longrightarrow>
              length (fst (Eval n g)) = nat n \<and> (\<forall>x\<in>set (fst (Eval n g)). 0 \<le> mant x)
              \<and> I (snd (Eval n g))"
  shows "I g \<Longrightarrow> i < 2 ^ 31 - 1 \<Longrightarrow> i < int (length perm) \<Longrightarrow> Perm_invariant i n N L R \<Longrightarrow>
         \<exists>perm' g'. Perm_loop Eval i n N L R perm g = Inr (perm', g') \<and> mset perm' = mset perm
            \<and> drop (nat (i + 1)) perm' = drop (nat (i + 1)) perm \<and> I g'"
proof (induction "nat i" arbitrary: i n N L R perm g)
  case 0
  then have "\<not> 0 < i" by simp
  then show ?case using 0 by (simp add: Perm_loop_exit)
next
  case (Suc m)
  have i: "0 < i" using Suc(2) by simp
  have m: "m = nat (i - 1)" using Suc(2) by simp
  from Perm_refill_ok[of I Eval, OF contract Suc(3) i Suc(6)]
  obtain n1 N1 L1 R1 g1 x where
    rf: "(if n = N then
                 (let N1 = (if L < Nmax then L else Nmax);
                      (xs, g1) = Eval N1 g
                  in case R_store xs R of
                       Inl e \<Rightarrow> Inl e
                     | Inr R1 \<Rightarrow> Inr (0, N1, L - N1, R1, g1))
               else Inr (n, N, L, R, g)) = Inr (n1, N1, L1, R1, g1)"
    and rd: "R_read R1 n1 = Inr x" and x: "0 \<le> mant x"
    and inv: "Perm_invariant (i - 1) (n1 + 1) N1 L1 R1" and g1: "I g1"
    by blast
  define k where "k = int_of_float (fmul (float_of_int (iadd i 1)) x)"
  have i1: "iadd i 1 = i + 1" unfolding iadd_def using i Suc(4) by (intro wrap32_id) simp_all
  have k0: "0 \<le> k" unfolding k_def i1 using i x by (intro Perm_candidate_nonneg) simp_all
  have unfold: "Perm_loop Eval i n N L R perm g =
      (if k < i then
         (case perm_swap perm i k of
            Inl e \<Rightarrow> Inl e
          | Inr perm1 \<Rightarrow> Perm_loop Eval (i - 1) (n1 + 1) N1 L1 R1 perm1 g1)
       else Perm_loop Eval (i - 1) (n1 + 1) N1 L1 R1 perm g1)"
    by (subst Perm_loop.simps) (simp only: i if_True Let_def rf[unfolded Let_def] sum.case prod.case rd k_def)
  have r1: "i - 1 < 2 ^ 31 - 1" using Suc(4) by simp
  show ?case
  proof (cases "k < i")
    case True
    have il: "nat i < length perm" using Suc(5) i by simp
    from perm_swap_ok[OF k0 True il] obtain perm1 where
      sw: "perm_swap perm i k = Inr perm1" "mset perm1 = mset perm"
          "drop (nat (i + 1)) perm1 = drop (nat (i + 1)) perm"
      by blast
    have l1: "i - 1 < int (length perm1)"
      using Suc(5) mset_eq_length[OF sw(2)] by simp
    from Suc(1)[OF m g1 r1 l1 inv] obtain perm' g' where
      IH: "Perm_loop Eval (i - 1) (n1 + 1) N1 L1 R1 perm1 g1 = Inr (perm', g')"
          "mset perm' = mset perm1" "drop (nat (i - 1 + 1)) perm' = drop (nat (i - 1 + 1)) perm1" "I g'"
      by blast
    have "drop 1 (drop (nat i) perm') = drop 1 (drop (nat i) perm1)" using IH(3) by simp
    then have d: "drop (nat (i + 1)) perm' = drop (nat (i + 1)) perm1"
      using i by (simp add: nat_add_distrib)
    show ?thesis
      unfolding unfold using True sw IH d by simp
  next
    case False
    have l1: "i - 1 < int (length perm)" using Suc(5) by simp
    from Suc(1)[OF m g1 r1 l1 inv] obtain perm' g' where
      IH: "Perm_loop Eval (i - 1) (n1 + 1) N1 L1 R1 perm g1 = Inr (perm', g')"
          "mset perm' = mset perm" "drop (nat (i - 1 + 1)) perm' = drop (nat (i - 1 + 1)) perm" "I g'"
      by blast
    have "drop 1 (drop (nat i) perm') = drop 1 (drop (nat i) perm)" using IH(3) by simp
    then have d: "drop (nat (i + 1)) perm' = drop (nat (i + 1)) perm"
      using i by (simp add: nat_add_distrib)
    show ?thesis
      unfolding unfold using False IH d by simp
  qed
qed


lemma Perm_permutes:
  fixes Eval :: "int \<Rightarrow> 'g \<Rightarrow> fpnum list \<times> 'g"
  assumes contract: "\<And>n g. I g \<Longrightarrow>
              length (fst (Eval n g)) = nat n \<and> (\<forall>x\<in>set (fst (Eval n g)). 0 \<le> mant x)
              \<and> I (snd (Eval n g))"
    and g: "I g" and len: "0 \<le> len" "len < 2 ^ 31" "nat len \<le> length perm"
  shows "\<exists>perm' g'. Perm Eval len perm g = Inr (perm', g')
           \<and> mset (take (nat len) perm') = mset (map int [0..<nat len])
           \<and> drop (nat len) perm' = drop (nat len) perm \<and> I g'
           \<and> (len \<le> 1 \<longrightarrow> take (nat len) perm' = map int [0..<nat len] \<and> g' = g)"
proof -
  define perm1 where "perm1 = map int [0..<nat len] @ drop (nat len) perm"
  have init: "Perm_init 0 len perm = Inr perm1"
    using Perm_init_identity[of 0 len perm] len by (simp add: perm1_def)
  have l1: "length perm1 = length perm" using len by (simp add: perm1_def)
  have t1: "take (nat len) perm1 = map int [0..<nat len]" by (simp add: perm1_def)
  have d1: "drop (nat len) perm1 = drop (nat len) perm" by (simp add: perm1_def)
  have sub: "isub len 1 = len - 1" unfolding isub_def using len by (intro wrap32_id) simp_all
  have P: "Perm Eval len perm g =
             Perm_loop Eval (len - 1) 0 0 (len - 1) (replicate (nat Nmax) None) perm1 g"
    unfolding Perm_def Let_def init sub by simp
  have inv: "Perm_invariant (len - 1) 0 0 (len - 1) (replicate (nat Nmax) None)"
    unfolding Perm_invariant_def by (simp add: Nmax_def)
  have "len - 1 < 2 ^ 31 - 1" "len - 1 < int (length perm1)" using len l1 by simp_all
  from Perm_loop_permutes[of I Eval, OF contract g this inv] obtain perm' g' where
    L: "Perm_loop Eval (len - 1) 0 0 (len - 1) (replicate (nat Nmax) None) perm1 g = Inr (perm', g')"
       "mset perm' = mset perm1" "drop (nat (len - 1 + 1)) perm' = drop (nat (len - 1 + 1)) perm1" "I g'"
    by blast
  have d: "drop (nat len) perm' = drop (nat len) perm1" using L(3) by simp
  have "mset (take (nat len) perm') + mset (drop (nat len) perm') =
        mset (take (nat len) perm1) + mset (drop (nat len) perm1)"
    using L(2) by (simp only: union_code[symmetric] mset_append[symmetric] append_take_drop_id)
  then have ms: "mset (take (nat len) perm') = mset (map int [0..<nat len])"
    unfolding d t1 by simp
  have small: "take (nat len) perm' = map int [0..<nat len] \<and> g' = g" if "len \<le> 1"
  proof -
    have "\<not> 0 < len - 1" using that by simp
    then have "Perm_loop Eval (len - 1) 0 0 (len - 1) (replicate (nat Nmax) None) perm1 g
                 = Inr (perm1, g)" by (rule Perm_loop_exit)
    with L(1) have "perm' = perm1" "g' = g" by simp_all
    then show ?thesis using t1 by simp
  qed
  show ?thesis using P L(1,4) ms d d1 small by simp
qed

text \<open>
  Claim C4.  For every \<open>len \<ge> 0\<close> (an \<open>int\<close>, so \<open>len < 2 ^ 31\<close>), every array \<open>perm\<close> with
  room for \<open>len\<close> elements, and every generator whose array form \<open>Eval(n, buffer)\<close>
  stores \<open>n\<close> values that all lie in \<open>[0, 1)\<close> (on a set \<open>I\<close> of generator states that
  the draws do not leave): \<open>Perm(len, perm)\<close> runs without fault, and afterwards
  \<open>perm[0]\<close>, ..., \<open>perm[len - 1]\<close> hold each of the integers \<open>0\<close>, ..., \<open>len - 1\<close>
  exactly once; nothing behind them is written.  For \<open>len = 0\<close> and \<open>len = 1\<close> the
  result is the identity and the generator is left in the state it had: no value is
  drawn (this holds for a generator that counts the values asked of it).
\<close>

theorem Perm_yields_permutation:
  fixes Eval :: "int \<Rightarrow> 'g \<Rightarrow> fpnum list \<times> 'g"
  assumes draws: "\<And>n g. I g \<Longrightarrow>
              length (fst (Eval n g)) = nat n
              \<and> (\<forall>x\<in>set (fst (Eval n g)). 0 \<le> valof x \<and> valof x < 1)
              \<and> I (snd (Eval n g))"
    and g: "I g" and len: "0 \<le> len" "len < 2 ^ 31" "nat len \<le> length perm"
  shows "\<exists>perm' g'. Perm Eval len perm g = Inr (perm', g')
           \<and> mset (take (nat len) perm') = mset (map int [0..<nat len])
           \<and> drop (nat len) perm' = drop (nat len) perm \<and> I g'
           \<and> (len \<le> 1 \<longrightarrow> take (nat len) perm' = map int [0..<nat len] \<and> g' = g)"
proof (rule Perm_permutes[of I Eval, OF _ g len])
  fix n g
  assume "I g"
  from draws[OF this, of n]
  show "length (fst (Eval n g)) = nat n \<and> (\<forall>x\<in>set (fst (Eval n g)). 0 \<le> mant x)
          \<and> I (snd (Eval n g))"
    by (simp add: valof_nonneg_iff)
qed

theorem Perm_yields_permutation_witness:
  "(0::int) \<le> 3 \<and> (3::int) < 2 ^ 31 \<and> nat 3 \<le> length [7, 7, 7::int]
   \<and> (\<exists>perm' g'.
         Perm (\<lambda>n c. (replicate (nat n) (Fp 1 (- 1)), c + nat n)) 3 [7, 7, 7] (0::nat) = Inr (perm', g')
         \<and> mset (take (nat 3) perm') = mset (map int [0..<nat 3])
         \<and> drop (nat 3) perm' = drop (nat 3) [7, 7, 7])
   \<and> Perm (\<lambda>n c. (replicate (nat n) (Fp 1 (- 1)), c + nat n)) 1 [7] (0::nat) = Inr ([0], 0)"
  using Perm_yields_permutation
    [where I = "\<lambda>c. True" and Eval = "\<lambda>n c. (replicate (nat n) (Fp 1 (- 1)), c + nat n)"
       and g = "0::nat" and len = 3 and perm = "[7, 7, 7]"]
    Perm_yields_permutation
    [where I = "\<lambda>c. True" and Eval = "\<lambda>n c. (replicate (nat n) (Fp 1 (- 1)), c + nat n)"
       and g = "0::nat" and len = 1 and perm = "[7]"]
  by (auto simp add: valof_def)

text \<open>
  Claim C9, as amended.  For every \<open>len\<close> with \<open>INT_MIN < len < 0\<close>, \<open>Perm(len, perm)\<close> does
  nothing: both loops make zero turns, no element of \<open>perm\<close> is written, the generator
  is not called (its state is returned unchanged, whatever \<open>Eval\<close> is), and no access is
  out of bounds.
\<close>

theorem Perm_negative_len:
  assumes "- (2 ^ 31) < len" "len < 0"
  shows "Perm Eval len perm g = Inr (perm, g)"
proof -
  have init: "Perm_init 0 len perm = Inr perm" using assms by (intro Perm_init_skip) simp
  have sub: "isub len 1 = len - 1" unfolding isub_def using assms by (intro wrap32_id) simp_all
  have "\<not> 0 < len - 1" using assms by simp
  then have "Perm_loop Eval (len - 1) 0 0 (len - 1) (replicate (nat Nmax) None) perm g = Inr (perm, g)"
    by (rule Perm_loop_exit)
  then show ?thesis unfolding Perm_def Let_def init sub by simp
qed


theorem Perm_negative_len_witness:
  "- (2 ^ 31) < (- 5::int) \<and> (- 5::int) < 0
   \<and> Perm RandGen_3_Eval_array (- 5) [1, 2, 3] \<lparr>ix = 1\<rparr> = Inr ([1, 2, 3], \<lparr>ix = 1\<rparr>)"
  using Perm_negative_len [of "- 5" RandGen_3_Eval_array "[1, 2, 3]" "\<lparr>ix = 1\<rparr>"]
  by simp

text \<open>The claim C9 as stated, for every \<open>len < 0\<close>, fails at \<open>len = INT_MIN\<close>, where
  \<open>len - 1\<close> overflows: wrapped around it is \<open>INT_MAX\<close>, the second loop is entered,
  \<open>Eval(20, R)\<close> draws twenty values, \<open>i + 1\<close> wraps to \<open>INT_MIN\<close>, the candidate
  \<open>k = (int)(-2147483648.0f * R[0])\<close> is \<open>-16807\<close> for \<open>RandGen_3\<close> after \<open>Seed(1)\<close>, and
  the swap reads \<open>perm[2147483647]\<close> and \<open>perm[-16807]\<close>.\<close>

lemma float_of_INT_MIN: "float_of_int (iadd 2147483647 1) = Fp (- 8388608) 8"
  unfolding float_of_int_def to_float_def round_prec_def Let_def iadd_def wrap_def
  by (simp add: rne_div_def compute_bitlen)

lemma RandGen_3_first_draw: "fst (RandGen_3_Eval \<lparr>ix = 1\<rparr>) = Fp 8605184 (- 40)"
proof -
  have "to_float (dmul (double_of_long 16807) (Fp 4503599629229928 (- 83))) = Fp 8605184 (- 40)"
    unfolding to_float_def dmul_def double_of_long_def to_double_def round_prec_def Let_def
    by (simp add: rne_div_def compute_bitlen)
  moreover have "RandGen_3_Eval \<lparr>ix = 1\<rparr> =
     (to_float (dmul (double_of_long ((16807 * ix \<lparr>ix = 1\<rparr>) mod 2147483647))
                     (double_lit 4656612875 (10 ^ 19))),
      \<lparr>ix = 1\<rparr>\<lparr>ix := (16807 * ix \<lparr>ix = 1\<rparr>) mod 2147483647\<rparr>)"
    by (rule RandGen_3_Eval_mod) simp_all
  ultimately show ?thesis unfolding scale_3_value by simp
qed

lemma Perm_candidate_INT_MIN:
  "int_of_float (fmul (Fp (- 8388608) 8) (Fp 8605184 (- 40))) = - 16807"
  unfolding fmul_def to_float_def round_prec_def Let_def int_of_float_def
  by (simp add: rne_div_def compute_bitlen)

theorem Perm_INT_MIN_out_of_bounds:
  "Perm RandGen_3_Eval_array (- 2147483648) [0, 0, 0] \<lparr>ix = 1\<rparr> = Inl OutOfBounds"
proof -
  define xs where "xs = fst (RandGen_3_Eval_array 20 \<lparr>ix = 1\<rparr>)"
  define g1 where "g1 = snd (RandGen_3_Eval_array 20 \<lparr>ix = 1\<rparr>)"
  have E: "RandGen_3_Eval_array 20 \<lparr>ix = 1\<rparr> = (xs, g1)" by (simp add: xs_def g1_def)
  have len: "length xs = 20"
    unfolding xs_def RandGen_3_Eval_array_draws by (simp add: length_scalar_draws)
  have "nat 20 = Suc 19" by simp
  then have x0: "xs ! 0 = Fp 8605184 (- 40)"
    unfolding xs_def RandGen_3_Eval_array_draws
    by (simp only: scalar_draws_Suc fst_conv nth_Cons_0 RandGen_3_first_draw)
  define R1 where "R1 = map Some xs @ drop (length xs) (replicate (nat Nmax) None)"
  have st: "R_store xs (replicate (nat Nmax) None) = Inr R1"
    unfolding R_store_def R1_def by (simp add: len Nmax_def)
  have st': "R_store xs (replicate 20 None) = Inr R1"
    using st by (simp add: Nmax_def)
  have "R1 ! 0 = Some (xs ! 0)" unfolding R1_def using len by (simp add: nth_append)
  moreover have "length R1 = 20" unfolding R1_def using len by (simp add: Nmax_def)
  ultimately have rd: "R_read R1 0 = Inr (Fp 8605184 (- 40))"
    unfolding R_read_def by (simp add: x0)
  have init: "Perm_init 0 (- 2147483648) [0, 0, 0] = Inr [0, 0, 0]"
    by (rule Perm_init_skip) simp
  have sub: "isub (- 2147483648) 1 = 2147483647" by (simp add: isub_def wrap_def)
  have sw: "perm_swap [0, 0, 0] 2147483647 (- 16807) = Inl OutOfBounds"
    by (simp add: perm_swap_def)
  have "Perm_loop RandGen_3_Eval_array 2147483647 0 0 2147483647 (replicate (nat Nmax) None)
          [0, 0, 0] \<lparr>ix = 1\<rparr> = Inl OutOfBounds"
    by (subst Perm_loop.simps)
       (simp add: Nmax_def[of] E st' rd float_of_INT_MIN Perm_candidate_INT_MIN sw)
  then show ?thesis unfolding Perm_def Let_def init sub by simp
qed


end
